theory Spec2Isabelle
  imports Complex_Main "HOL-Library.Word"
begin

section \<open>Gear Hover Reveal: a shallow embedding of \<^verbatim>\<open>src/app.js\<close>\<close>

text \<open>
  JavaScript numbers that hold pixel indices, channel values and label ids are modelled
  as \<open>nat\<close> (or \<open>int\<close> where the source lets them go negative). Numbers that hold
  fractions (normalised anchor points, pointer and rectangle coordinates) are binary64
  numbers: each is modelled by the rational it denotes, and every arithmetic operation
  on them rounds its result. The brightness of \<^verbatim>\<open>isForeground\<close> is the quotient of an
  integer of at most 765 by 3; rounding it does not change its comparison with 245, and
  it is kept as the exact quotient.
\<close>

subsection \<open>Foreground classifier (\<^verbatim>\<open>isForeground\<close>, lines 77-82)\<close>

definition isForeground :: "nat \<Rightarrow> nat \<Rightarrow> nat \<Rightarrow> bool" where
  "isForeground r g b =
     (if r > 245 \<and> g > 245 \<and> b > 245 then False
      else (let brightness = (rat_of_nat (r + g + b)) / 3 in brightness < 245))"

subsection \<open>Typed arrays\<close>

text \<open>
  A \<^verbatim>\<open>Uint8ClampedArray\<close> (the \<^verbatim>\<open>data\<close> of an \<^verbatim>\<open>ImageData\<close>) is a list of bytes. Reading
  beyond its end yields \<^verbatim>\<open>undefined\<close>, modelled as \<open>None\<close>.
\<close>

type_synonym byte = "8 word"

definition channel :: "byte list \<Rightarrow> nat \<Rightarrow> nat option" where
  "channel data i = (if i < length data then Some (unat (data ! i)) else None)"

text \<open>
  \<^verbatim>\<open>isForeground\<close> applied to values read from a buffer. When one of the reads is
  \<^verbatim>\<open>undefined\<close>, the conjunction of line 79 is false, the brightness of line 80 is
  \<^verbatim>\<open>NaN\<close> and the comparison of line 81 is false.
\<close>

definition isForegroundJS :: "nat option \<Rightarrow> nat option \<Rightarrow> nat option \<Rightarrow> bool" where
  "isForegroundJS r g b =
     (case (r, g, b) of
        (Some r', Some g', Some b') \<Rightarrow> isForeground r' g' b'
      | _ \<Rightarrow> False)"

text \<open>Lines 98-101 and 127-130: the three channel reads at pixel \<open>p\<close> and the test.\<close>

definition fgAt :: "byte list \<Rightarrow> nat \<Rightarrow> bool" where
  "fgAt data p =
     (let i = p * 4;
          r = channel data i; g = channel data (i + 1); b = channel data (i + 2)
      in isForegroundJS r g b)"

text \<open>
  A store into the \<^verbatim>\<open>Uint32Array\<close> \<^verbatim>\<open>compIdAt\<close> keeps the value modulo \<open>2 ^ 32\<close>, and
  \<^verbatim>\<open>x | 0\<close> reads a non-negative integer \<open>x\<close> as a signed 32-bit integer.
\<close>

definition toUint32 :: "nat \<Rightarrow> nat" where
  "toUint32 n = n mod 2 ^ 32"

definition toInt32 :: "nat \<Rightarrow> int" where
  "toInt32 n = (let m = int (n mod 2 ^ 32) in if m \<ge> 2 ^ 31 then m - 2 ^ 32 else m)"

subsection \<open>Label map builder (\<^verbatim>\<open>buildComponentMap\<close>, lines 84-143)\<close>

text \<open>\<^verbatim>\<open>const idx = (x, y) => y * W + x\<close> (line 91).\<close>

definition idx :: "nat \<Rightarrow> int \<Rightarrow> int \<Rightarrow> int" where
  "idx W x y = y * int W + x"

text \<open>
  The body of the loop over the four neighbours (lines 122-137). The state is the pair of
  \<^verbatim>\<open>compIdAt\<close> and the stack, whose top is the head of the list.
\<close>

definition visit ::
  "nat \<Rightarrow> nat \<Rightarrow> byte list \<Rightarrow> nat \<Rightarrow> nat list \<times> nat list \<Rightarrow> int \<times> int \<Rightarrow> nat list \<times> nat list" where
  "visit W H data currentId s n =
     (case s of (compIdAt, stack) \<Rightarrow>
      case n of (nx, ny) \<Rightarrow>
        if nx < 0 \<or> nx \<ge> int W \<or> ny < 0 \<or> ny \<ge> int H then (compIdAt, stack)
        else let np = nat (idx W nx ny) in
          if compIdAt ! np \<noteq> 0 then (compIdAt, stack)
          else if \<not> fgAt data np then (compIdAt[np := 0], stack)
          else (compIdAt[np := toUint32 currentId], np # stack))"

text \<open>Lines 111-120: the coordinates of the popped pixel and its four neighbours.\<close>

definition nbs :: "nat \<Rightarrow> nat \<Rightarrow> (int \<times> int) list" where
  "nbs W q =
     (let qx = int (q mod W); qy = toInt32 (q div W)
      in [(qx - 1, qy), (qx + 1, qy), (qx, qy - 1), (qx, qy + 1)])"

text \<open>
  The \<^verbatim>\<open>while (stack.length)\<close> loop of lines 110-138. Nothing in the loop itself bounds
  the number of iterations, so the model is a partial function: \<open>None\<close> means that the
  loop does not return.
\<close>

partial_function (option) floodFill ::
  "nat \<Rightarrow> nat \<Rightarrow> byte list \<Rightarrow> nat \<Rightarrow> nat list \<Rightarrow> nat list \<Rightarrow> nat list option" where
  "floodFill W H data currentId compIdAt stack =
     (case stack of
        [] \<Rightarrow> Some compIdAt
      | q # rest \<Rightarrow>
          (case foldl (visit W H data currentId) (compIdAt, rest) (nbs W q) of
             (compIdAt', stack') \<Rightarrow> floodFill W H data currentId compIdAt' stack'))"

text \<open>
  The body of the inner \<^verbatim>\<open>for\<close> loop (lines 95-138) at column \<open>x\<close> of row \<open>y\<close>; the
  state is the pair of \<^verbatim>\<open>compIdAt\<close> and \<^verbatim>\<open>currentId\<close>.
\<close>

definition scanPixel ::
  "nat \<Rightarrow> nat \<Rightarrow> byte list \<Rightarrow> nat \<Rightarrow> nat \<Rightarrow> nat list \<times> nat \<Rightarrow> (nat list \<times> nat) option" where
  "scanPixel W H data y x s =
     (case s of (compIdAt, currentId) \<Rightarrow>
        let p = nat (idx W (int x) (int y)) in
        if compIdAt ! p \<noteq> 0 then Some (compIdAt, currentId)
        else if \<not> fgAt data p then Some (compIdAt[p := 0], currentId)
        else
          let currentId' = currentId + 1;
              compIdAt' = compIdAt[p := toUint32 currentId']
          in (case floodFill W H data currentId' compIdAt' [p] of
                None \<Rightarrow> None
              | Some compIdAt'' \<Rightarrow> Some (compIdAt'', currentId')))"

text \<open>A counting \<^verbatim>\<open>for (let i = ...; i < n; i++)\<close> loop whose body may fail to return.\<close>

function forLoop :: "nat \<Rightarrow> nat \<Rightarrow> (nat \<Rightarrow> 's \<Rightarrow> 's option) \<Rightarrow> 's \<Rightarrow> 's option" where
  "forLoop i n body s =
     (if i < n then (case body i s of None \<Rightarrow> None | Some s' \<Rightarrow> forLoop (Suc i) n body s')
      else Some s)"
  by pat_completeness auto
termination
  by (relation "measure (\<lambda>(i, n, body, s). n - i)") auto

declare forLoop.simps [simp del]

text \<open>
  Lines 85-142 for given \<^verbatim>\<open>W\<close>, \<^verbatim>\<open>H\<close>: a fresh zero-filled \<^verbatim>\<open>Uint32Array(W * H)\<close>,
  \<^verbatim>\<open>currentId = 0\<close>, and the two nested loops. The result is the pair of the label array
  and the final \<^verbatim>\<open>currentId\<close>.
\<close>

definition labelScan :: "nat \<Rightarrow> nat \<Rightarrow> byte list \<Rightarrow> (nat list \<times> nat) option" where
  "labelScan W H data =
     forLoop 0 H (\<lambda>y. forLoop 0 W (\<lambda>x. scanPixel W H data y x)) (replicate (W * H) 0, 0)"

subsection \<open>Module state\<close>

text \<open>
  The module-level \<^verbatim>\<open>let\<close> variables of lines 71-75, 146-148 and 186, each prefixed
  \<open>g_\<close>, and the pixels shown on the canvas \<^verbatim>\<open>c\<close>. An \<^verbatim>\<open>ImageData\<close> is represented by its
  \<^verbatim>\<open>data\<close> array, a \<^verbatim>\<open>Map\<close> by a partial function, a \<^verbatim>\<open>Set\<close> of label ids by the list of
  its elements in insertion order, and \<^verbatim>\<open>null\<close> by \<open>None\<close>. The canvas is modelled as
  keeping exactly the bytes that \<^verbatim>\<open>putImageData\<close> gives it.
\<close>

record globals =
  g_W :: nat
  g_H :: nat
  g_greyData :: "byte list"
  g_colorData :: "byte list"
  g_compIdAt :: "nat list"
  g_compCount :: nat
  g_compToItemKey :: "nat \<rightharpoonup> string"
  g_itemKeyToInfo :: "string \<rightharpoonup> string \<times> string"
  g_itemKeyToComps :: "string \<rightharpoonup> nat list"
  g_hoverItemKey :: "string option"
  g_canvas :: "byte list"

text \<open>The state before \<^verbatim>\<open>init\<close> runs (lines 71-75, 146-148, 186).\<close>

definition initial :: globals where
  "initial = \<lparr>g_W = 0, g_H = 0, g_greyData = [], g_colorData = [], g_compIdAt = [],
     g_compCount = 0, g_compToItemKey = Map.empty, g_itemKeyToInfo = Map.empty,
     g_itemKeyToComps = Map.empty, g_hoverItemKey = None, g_canvas = []\<rparr>"

text \<open>
  \<^verbatim>\<open>buildComponentMap(greyImageData)\<close>: reads \<^verbatim>\<open>W\<close> and \<^verbatim>\<open>H\<close>, replaces \<^verbatim>\<open>compIdAt\<close> and
  sets \<^verbatim>\<open>compCount\<close> (line 142).
\<close>

definition buildComponentMap :: "byte list \<Rightarrow> globals \<Rightarrow> globals option" where
  "buildComponentMap data s =
     (case labelScan (g_W s) (g_H s) data of
        None \<Rightarrow> None
      | Some (compIdAt, currentId) \<Rightarrow> Some (s\<lparr>g_compIdAt := compIdAt, g_compCount := currentId\<rparr>))"

subsection \<open>Numbers (IEEE 754 binary64)\<close>

text \<open>
  Every \<^verbatim>\<open>*\<close>, \<^verbatim>\<open>/\<close>, \<^verbatim>\<open>+\<close> and \<^verbatim>\<open>-\<close> of the source computes in binary64: the exact result is
  rounded to the nearest representable number, ties going to the even significand. A
  finite number is modelled by the rational it denotes, next to the two infinities and
  \<^verbatim>\<open>NaN\<close>. The sign of a zero is not represented: it can only be observed by dividing by
  the zero, and the only divisors of the source, \<^verbatim>\<open>rect.width\<close> and \<^verbatim>\<open>rect.height\<close>, are
  inputs.
\<close>

datatype jsnum = Num rat | PosInf | NegInf | NaN

text \<open>The position of the leading bit of \<open>n\<close>, that is the \<open>k\<close> with \<open>2 ^ k \<le> n < 2 ^ (k + 1)\<close>, for \<open>n \<ge> 1\<close>.\<close>

fun ilog2 :: "nat \<Rightarrow> nat" where
  "ilog2 n = (if n < 2 then 0 else Suc (ilog2 (n div 2)))"

declare ilog2.simps [simp del]

text \<open>The binary exponent of \<open>x \<noteq> 0\<close>: the \<open>e\<close> with \<open>2 powi e \<le> \<bar>x\<bar> < 2 powi (e + 1)\<close>.\<close>

definition expo :: "rat \<Rightarrow> int" where
  "expo x =
     (let a = \<bar>x\<bar>
      in if 1 \<le> a then int (ilog2 (nat \<lfloor>a\<rfloor>)) else - int (Suc (ilog2 (nat (\<lceil>1 / a\<rceil> - 1)))))"

text \<open>The nearest integer, the even one of the two when \<open>r\<close> lies half-way.\<close>

definition roundEven :: "rat \<Rightarrow> int" where
  "roundEven r =
     (let f = \<lfloor>r\<rfloor>; d = r - of_int f
      in if d < 1 / 2 then f else if 1 / 2 < d then f + 1 else if even f then f else f + 1)"

text \<open>
  Rounding an exact result to binary64: 53 significant bits, so the spacing of the
  representable numbers around \<open>x\<close> is \<open>2 powi (e - 52)\<close>; below the least normal exponent
  \<open>-1022\<close> the spacing stays \<open>2 powi (-1074)\<close> (subnormal numbers, and underflow to zero);
  a rounded magnitude of \<open>2 powi 1024\<close> or more overflows to an infinity.
\<close>

definition fl64 :: "rat \<Rightarrow> jsnum" where
  "fl64 x =
     (if x = 0 then Num 0
      else
        let e = max (expo x) (- 1022);
            q = 2 powi (e - 52);
            y = of_int (roundEven (x / q)) * q
        in if 2 powi 1024 \<le> \<bar>y\<bar> then (if 0 < x then PosInf else NegInf) else Num y)"

text \<open>\<^verbatim>\<open>a - b\<close> for finite \<open>a\<close> and \<open>b\<close>.\<close>

definition jsSub :: "rat \<Rightarrow> rat \<Rightarrow> jsnum" where
  "jsSub a b = fl64 (a - b)"

text \<open>\<^verbatim>\<open>a / b\<close> for a non-negative integer \<open>a\<close> and a finite \<open>b\<close>.\<close>

definition jsDiv :: "nat \<Rightarrow> rat \<Rightarrow> jsnum" where
  "jsDiv a b = (if b = 0 then (if a = 0 then NaN else PosInf) else fl64 (rat_of_nat a / b))"

text \<open>
  \<^verbatim>\<open>a * b\<close> and \<^verbatim>\<open>a + b\<close>. An infinity times zero and the sum of the two infinities are
  \<^verbatim>\<open>NaN\<close>, and \<^verbatim>\<open>NaN\<close> propagates.
\<close>

definition signOf :: "jsnum \<Rightarrow> int" where
  "signOf a =
     (case a of
        Num x \<Rightarrow> (if 0 < x then 1 else if x < 0 then - 1 else 0)
      | PosInf \<Rightarrow> 1
      | NegInf \<Rightarrow> - 1
      | NaN \<Rightarrow> 0)"

definition jsMul :: "jsnum \<Rightarrow> jsnum \<Rightarrow> jsnum" where
  "jsMul a b =
     (case (a, b) of
        (Num x, Num y) \<Rightarrow> fl64 (x * y)
      | _ \<Rightarrow> if signOf a * signOf b = 0 then NaN
             else if 0 < signOf a * signOf b then PosInf else NegInf)"

definition jsAdd :: "jsnum \<Rightarrow> jsnum \<Rightarrow> jsnum" where
  "jsAdd a b =
     (case (a, b) of
        (Num x, Num y) \<Rightarrow> fl64 (x + y)
      | _ \<Rightarrow> if a = NaN \<or> b = NaN \<or> (a = PosInf \<and> b = NegInf) \<or> (a = NegInf \<and> b = PosInf)
             then NaN
             else if a = PosInf \<or> b = PosInf then PosInf else NegInf)"

text \<open>\<^verbatim>\<open>Math.floor(a)\<close>; the floor of a binary64 number is one, so nothing is rounded.\<close>

definition jsFloor :: "jsnum \<Rightarrow> jsnum" where
  "jsFloor a = (case a of Num r \<Rightarrow> Num (of_int \<lfloor>r\<rfloor>) | _ \<Rightarrow> a)"

text \<open>\<^verbatim>\<open>a < b\<close> and \<^verbatim>\<open>a >= b\<close> for a finite \<open>b\<close>; both are false for \<^verbatim>\<open>NaN\<close>.\<close>

definition jsLess :: "jsnum \<Rightarrow> rat \<Rightarrow> bool" where
  "jsLess a b = (case a of Num r \<Rightarrow> r < b | NegInf \<Rightarrow> True | _ \<Rightarrow> False)"

definition jsGeq :: "jsnum \<Rightarrow> rat \<Rightarrow> bool" where
  "jsGeq a b = (case a of Num r \<Rightarrow> r \<ge> b | PosInf \<Rightarrow> True | _ \<Rightarrow> False)"

subsection \<open>Item resolver (\<^verbatim>\<open>buildItemMappings\<close>, lines 150-175)\<close>

text \<open>An anchor point is a pair of numbers, as the literals of \<^verbatim>\<open>ITEMS\<close> denote them.\<close>

record item =
  key :: string
  title :: string
  message :: string
  pts :: "(rat \<times> rat) list"

text \<open>
  \<^verbatim>\<open>compIdAt[i] || 0\<close> for an integer index \<open>i\<close>: an index outside the array reads
  \<^verbatim>\<open>undefined\<close>, which \<^verbatim>\<open>|| 0\<close> turns into 0.
\<close>

definition readLabel :: "nat list \<Rightarrow> int \<Rightarrow> nat" where
  "readLabel compIdAt i = (if 0 \<le> i \<and> i < int (length compIdAt) then compIdAt ! nat i else 0)"

text \<open>
  \<^verbatim>\<open>compIdAt[i] || 0\<close> for a number \<open>i\<close>: a number that is not an integer, an infinity and
  \<^verbatim>\<open>NaN\<close> are no element of a typed array and read \<^verbatim>\<open>undefined\<close> as well.
\<close>

definition readLabelNum :: "nat list \<Rightarrow> jsnum \<Rightarrow> nat" where
  "readLabelNum compIdAt i =
     (case i of
        Num r \<Rightarrow> (if of_int \<lfloor>r\<rfloor> = r then readLabel compIdAt \<lfloor>r\<rfloor> else 0)
      | _ \<Rightarrow> 0)"

text \<open>\<^verbatim>\<open>compIdAt[y * W + x] || 0\<close> (lines 162 and 183).\<close>

definition labelAt :: "nat list \<Rightarrow> nat \<Rightarrow> jsnum \<Rightarrow> jsnum \<Rightarrow> nat" where
  "labelAt compIdAt W x y = readLabelNum compIdAt (jsAdd (jsMul y (Num (rat_of_nat W))) x)"

text \<open>\<^verbatim>\<open>set.add(id)\<close> on the insertion-ordered list of elements.\<close>

definition setAdd :: "nat list \<Rightarrow> nat \<Rightarrow> nat list" where
  "setAdd ids i = (if i \<in> set ids then ids else ids @ [i])"

text \<open>The body of the loop over the anchor points of one item (lines 160-163).\<close>

definition addPoint :: "nat \<Rightarrow> nat \<Rightarrow> nat list \<Rightarrow> nat list \<Rightarrow> rat \<times> rat \<Rightarrow> nat list" where
  "addPoint W H compIdAt ids pt =
     (case pt of (nx, ny) \<Rightarrow>
        let px = jsFloor (jsMul (Num nx) (Num (rat_of_nat W)));
            py = jsFloor (jsMul (Num ny) (Num (rat_of_nat H)));
            i = labelAt compIdAt W px py
        in if i \<noteq> 0 then setAdd ids i else ids)"

text \<open>
  The body of the loop over \<^verbatim>\<open>ITEMS\<close> (lines 156-167); the state is the triple of
  \<^verbatim>\<open>compToItemKey\<close>, \<^verbatim>\<open>itemKeyToInfo\<close> and \<^verbatim>\<open>itemKeyToComps\<close>.
\<close>

definition mapItem ::
  "nat \<Rightarrow> nat \<Rightarrow> nat list \<Rightarrow>
   (nat \<rightharpoonup> string) \<times> (string \<rightharpoonup> string \<times> string) \<times> (string \<rightharpoonup> nat list) \<Rightarrow> item \<Rightarrow>
   (nat \<rightharpoonup> string) \<times> (string \<rightharpoonup> string \<times> string) \<times> (string \<rightharpoonup> nat list)" where
  "mapItem W H compIdAt m it =
     (case m of (compToItemKey, itemKeyToInfo, itemKeyToComps) \<Rightarrow>
        let itemKeyToInfo' = itemKeyToInfo(key it \<mapsto> (title it, message it));
            ids = foldl (addPoint W H compIdAt) [] (pts it);
            itemKeyToComps' = itemKeyToComps(key it \<mapsto> ids);
            compToItemKey' = foldl (\<lambda>c i. c(i \<mapsto> key it)) compToItemKey ids
        in (compToItemKey', itemKeyToInfo', itemKeyToComps'))"

text \<open>
  \<^verbatim>\<open>buildItemMappings()\<close> for the catalogue \<^verbatim>\<open>ITEMS\<close>: the three maps are cleared and then
  filled item by item. The two \<^verbatim>\<open>console.log\<close> calls have no effect on the state.
\<close>

definition buildItemMappings :: "item list \<Rightarrow> globals \<Rightarrow> globals" where
  "buildItemMappings ITEMS s =
     (case foldl (mapItem (g_W s) (g_H s) (g_compIdAt s)) (Map.empty, Map.empty, Map.empty) ITEMS of
        (compToItemKey, itemKeyToInfo, itemKeyToComps) \<Rightarrow>
          s\<lparr>g_compToItemKey := compToItemKey, g_itemKeyToInfo := itemKeyToInfo,
            g_itemKeyToComps := itemKeyToComps\<rparr>)"

subsection \<open>Hit tester (\<^verbatim>\<open>componentAtClientXY\<close>, lines 178-184)\<close>

text \<open>
  The bounding rectangle of the canvas is an input; pointer and rectangle coordinates
  are finite numbers.
\<close>

record rect =
  rect_left :: rat
  rect_top :: rat
  rect_width :: rat
  rect_height :: rat

text \<open>
  \<^verbatim>\<open>Math.floor((c - l) * (n / w))\<close>, the expression of lines 180 and 181. The difference,
  the quotient and the product are rounded one after the other; the quotient is not
  finite when \<open>w\<close> is 0.
\<close>

definition gridCoord :: "nat \<Rightarrow> rat \<Rightarrow> rat \<Rightarrow> rat \<Rightarrow> jsnum" where
  "gridCoord n c l w = jsFloor (jsMul (jsSub c l) (jsDiv n w))"

definition componentAtClientXY :: "rect \<Rightarrow> rat \<Rightarrow> rat \<Rightarrow> globals \<Rightarrow> nat" where
  "componentAtClientXY rect cx cy s =
     (let x = gridCoord (g_W s) cx (rect_left rect) (rect_width rect);
          y = gridCoord (g_H s) cy (rect_top rect) (rect_height rect)
      in if jsLess x 0 \<or> jsGeq x (rat_of_nat (g_W s)) \<or> jsLess y 0 \<or> jsGeq y (rat_of_nat (g_H s))
         then 0
         else labelAt (g_compIdAt s) (g_W s) x y)"

subsection \<open>Compositor (\<^verbatim>\<open>redraw\<close>, lines 188-209)\<close>

text \<open>
  \<^verbatim>\<open>o[i] = c[j]\<close> on two \<^verbatim>\<open>Uint8ClampedArray\<close>s: a read beyond the end of \<open>c\<close> stores 0, a
  write beyond the end of \<open>o\<close> is ignored (as \<open>list_update\<close> does).
\<close>

definition byteAt :: "byte list \<Rightarrow> nat \<Rightarrow> byte" where
  "byteAt c i = (if i < length c then c ! i else 0)"

text \<open>The body of the loop over all pixels (lines 200-206).\<close>

definition recolor :: "nat list \<Rightarrow> nat list \<Rightarrow> byte list \<Rightarrow> byte list \<Rightarrow> nat \<Rightarrow> byte list" where
  "recolor compIdAt comps c out p =
     (if p < length compIdAt \<and> compIdAt ! p \<in> set comps then
        let i = p * 4
        in out[i := byteAt c i, i + 1 := byteAt c (i + 1), i + 2 := byteAt c (i + 2), i + 3 := 255]
      else out)"

text \<open>
  \<^verbatim>\<open>redraw()\<close>. \<^verbatim>\<open>!hoverItemKey\<close> holds for \<^verbatim>\<open>null\<close> and for the empty string.
  \<^verbatim>\<open>getImageData(0, 0, W, H)\<close> reads back what line 189 put on the canvas; it is only
  reached after \<^verbatim>\<open>init\<close> has succeeded, where \<open>W\<close> and \<open>H\<close> are not 0.
\<close>

definition redraw :: "globals \<Rightarrow> globals" where
  "redraw s =
     (let s1 = s\<lparr>g_canvas := g_greyData s\<rparr> in
      case g_hoverItemKey s of
        None \<Rightarrow> s1
      | Some k \<Rightarrow>
          if k = [] then s1
          else (case g_itemKeyToComps s k of
                  None \<Rightarrow> s1
                | Some comps \<Rightarrow>
                    if comps = [] then s1
                    else
                      let out = g_canvas s1;
                          out' = foldl (recolor (g_compIdAt s) comps (g_colorData s)) out
                                   [0..<g_W s * g_H s]
                      in s1\<lparr>g_canvas := out'\<rparr>))"

subsection \<open>Initialisation (\<^verbatim>\<open>init\<close>, lines 224-294, and \<^verbatim>\<open>drawImageToData\<close>, lines 61-68)\<close>

text \<open>
  A decoded image has its natural size; \<open>drawn img W H\<close> stands for the bytes that
  \<^verbatim>\<open>drawImage(img, 0, 0, W, H)\<close> paints on a canvas of that size (the smoothing filter of
  the browser is not modelled). \<^verbatim>\<open>getImageData(0, 0, W, H)\<close> returns exactly
  \<open>4 * W * H\<close> bytes, transparent black where nothing was painted, and throws an
  \<^verbatim>\<open>IndexSizeError\<close> when \<open>W\<close> or \<open>H\<close> is 0.
\<close>

record image =
  naturalWidth :: nat
  naturalHeight :: nat
  drawn :: "nat \<Rightarrow> nat \<Rightarrow> byte list"

datatype error = FetchFailed | ImageFailed | IndexSizeError

definition drawImageToData :: "image \<Rightarrow> nat \<Rightarrow> nat \<Rightarrow> error + byte list" where
  "drawImageToData img W H =
     (if W = 0 \<or> H = 0 then Inl IndexSizeError
      else Inr (map (byteAt (drawn img W H)) [0..<4 * W * H]))"

text \<open>
  What \<^verbatim>\<open>mustFetch\<close> and \<^verbatim>\<open>loadImage\<close> obtain for one of the two files: the file cannot be
  fetched, it is fetched but does not decode, or it decodes to an image.
\<close>

datatype resource = Unreachable | Undecodable | Decoded image

text \<open>
  \<^verbatim>\<open>init()\<close> up to the first \<^verbatim>\<open>redraw()\<close> (lines 225-244); the event handlers registered
  afterwards do not run during initialisation. \<open>Inl\<close> is the \<^verbatim>\<open>catch\<close> branch; \<open>None\<close>
  means that \<^verbatim>\<open>buildComponentMap\<close> does not return.
\<close>

definition init :: "item list \<Rightarrow> resource \<Rightarrow> resource \<Rightarrow> (error + globals) option" where
  "init ITEMS grey color =
     (if grey = Unreachable then Some (Inl FetchFailed)
      else if color = Unreachable then Some (Inl FetchFailed)
      else (case (grey, color) of
              (Decoded greyImg, Decoded colorImg) \<Rightarrow>
                let W = naturalWidth greyImg; H = naturalHeight greyImg;
                    s1 = initial\<lparr>g_W := W, g_H := H\<rparr>
                in (case drawImageToData greyImg W H of
                      Inl e \<Rightarrow> Some (Inl e)
                    | Inr greyData \<Rightarrow>
                        (case drawImageToData colorImg W H of
                           Inl e \<Rightarrow> Some (Inl e)
                         | Inr colorData \<Rightarrow>
                             let s2 = s1\<lparr>g_greyData := greyData, g_colorData := colorData\<rparr>
                             in (case buildComponentMap greyData s2 of
                                   None \<Rightarrow> None
                                 | Some s3 \<Rightarrow> Some (Inr (redraw (buildItemMappings ITEMS s3))))))
            | _ \<Rightarrow> Some (Inl ImageFailed)))"

section \<open>Specification vocabulary\<close>

text \<open>
  Two pixel positions of a \<open>W \<times> H\<close> raster are 4-adjacent when they lie in the same row
  in neighbouring columns, or in the same column in neighbouring rows.
\<close>

definition adjacent :: "nat \<Rightarrow> nat \<Rightarrow> nat \<Rightarrow> nat \<Rightarrow> bool" where
  "adjacent W H p q =
     (p < W * H \<and> q < W * H \<and>
      ((p div W = q div W \<and> (p mod W + 1 = q mod W \<or> q mod W + 1 = p mod W)) \<or>
       (p mod W = q mod W \<and> (p div W + 1 = q div W \<or> q div W + 1 = p div W))))"

text \<open>A 4-connected path: a non-empty list of positions, each adjacent to the next.\<close>

definition path4 :: "nat \<Rightarrow> nat \<Rightarrow> nat list \<Rightarrow> bool" where
  "path4 W H ps = (ps \<noteq> [] \<and> (\<forall>p\<in>set ps. p < W * H) \<and> successively (adjacent W H) ps)"

text \<open>
  One step between adjacent foreground pixels. A component is a class of foreground
  pixels under the reflexive transitive closure of this step, and its first pixel is the
  one with the least row-major position.
\<close>

definition fgStep :: "nat \<Rightarrow> nat \<Rightarrow> byte list \<Rightarrow> nat \<Rightarrow> nat \<Rightarrow> bool" where
  "fgStep W H data a b = (adjacent W H a b \<and> fgAt data a \<and> fgAt data b)"

definition firstPixel :: "nat \<Rightarrow> nat \<Rightarrow> byte list \<Rightarrow> nat \<Rightarrow> bool" where
  "firstPixel W H data p =
     (p < W * H \<and> fgAt data p \<and> (\<forall>q<p. \<not> (fgStep W H data)\<^sup>*\<^sup>* q p))"

subsection \<open>Pointer positions\<close>





subsection \<open>Loop invariants\<close>

text \<open>A neighbour that passes the bounds check of line 123, and its position.\<close>

definition inBounds :: "nat \<Rightarrow> nat \<Rightarrow> int \<times> int \<Rightarrow> bool" where
  "inBounds W H n = (case n of (nx, ny) \<Rightarrow> \<not> (nx < 0 \<or> nx \<ge> int W \<or> ny < 0 \<or> ny \<ge> int H))"

definition pixelOf :: "nat \<Rightarrow> int \<times> int \<Rightarrow> nat" where
  "pixelOf W n = (case n of (nx, ny) \<Rightarrow> nat (idx W nx ny))"

text \<open>One step between adjacent pixels that both carry the label \<open>L\<close>.\<close>

definition lstep :: "nat \<Rightarrow> nat \<Rightarrow> nat list \<Rightarrow> nat \<Rightarrow> nat \<Rightarrow> nat \<Rightarrow> bool" where
  "lstep W H lab L p q = (adjacent W H p q \<and> lab ! p = L \<and> lab ! q = L)"

text \<open>
  The invariant of the \<^verbatim>\<open>while\<close> loop that fills label \<open>c\<close> from the pixel \<open>seed\<close>, where
  \<open>lab0\<close> is the label array before the seed was labelled and \<open>X\<close> is the set of pixels
  whose neighbours are still to be visited: labels sit on foreground pixels only, the
  pixels of \<open>X\<close> carry \<open>c\<close>, every labelled pixel outside \<open>X\<close> has all its foreground
  neighbours in its own label, every pixel labelled \<open>c\<close> is joined to the seed inside
  \<open>c\<close>, and the only change to \<open>lab0\<close> is that zeros became \<open>c\<close>. The loop terminates
  because each iteration decreases \<open>fillMeasure\<close>.
\<close>

definition fillInv ::
  "nat \<Rightarrow> nat \<Rightarrow> byte list \<Rightarrow> nat \<Rightarrow> nat \<Rightarrow> nat list \<Rightarrow> nat set \<Rightarrow> nat list \<Rightarrow> bool" where
  "fillInv W H data c seed lab0 X lab =
     (length lab = W * H \<and> seed < W * H \<and> lab ! seed = c \<and> 0 < c \<and>
      (\<forall>p<W * H. lab ! p \<noteq> 0 \<longrightarrow> fgAt data p) \<and>
      (\<forall>p\<in>X. p < W * H \<and> lab ! p = c) \<and>
      (\<forall>p q. adjacent W H p q \<and> fgAt data q \<and> lab ! p \<noteq> 0 \<and> p \<notin> X \<longrightarrow> lab ! q = lab ! p) \<and>
      (\<forall>p<W * H. lab ! p = c \<longrightarrow> (lstep W H lab c)\<^sup>*\<^sup>* seed p) \<and>
      (\<forall>p<W * H. lab ! p = lab0 ! p \<or> (lab0 ! p = 0 \<and> lab ! p = c)))"

definition fillMeasure :: "nat list \<Rightarrow> nat list \<Rightarrow> nat" where
  "fillMeasure lab st = length st + 2 * count_list lab 0"

text \<open>
  The invariant of the two scanning loops after the first \<open>n\<close> pixels in row-major order,
  for the pair of \<^verbatim>\<open>compIdAt\<close> and \<^verbatim>\<open>currentId\<close>.
\<close>

definition scanInv :: "nat \<Rightarrow> nat \<Rightarrow> byte list \<Rightarrow> nat \<Rightarrow> nat list \<times> nat \<Rightarrow> bool" where
  "scanInv W H data n s =
     (case s of (lab, cid) \<Rightarrow>
        length lab = W * H \<and> cid \<le> n \<and>
        (\<forall>p<W * H. lab ! p \<noteq> 0 \<longrightarrow> fgAt data p) \<and>
        (\<forall>p<n. fgAt data p \<longrightarrow> lab ! p \<noteq> 0) \<and>
        (\<forall>p q. adjacent W H p q \<and> fgAt data q \<and> lab ! p \<noteq> 0 \<longrightarrow> lab ! q = lab ! p) \<and>
        (\<forall>p<W * H. lab ! p \<le> cid) \<and>
        (\<forall>p<W * H. \<forall>q<W * H. lab ! p = lab ! q \<and> lab ! p \<noteq> 0 \<longrightarrow> (lstep W H lab (lab ! p))\<^sup>*\<^sup>* p q) \<and>
        (\<forall>L. 0 < L \<and> L \<le> cid \<longrightarrow>
           (\<exists>m<n. lab ! m = L \<and> (\<forall>q<W * H. lab ! q = L \<longrightarrow> m \<le> q) \<and> (\<forall>q<m. lab ! q < L))))"

subsection \<open>A small image\<close>

text \<open>
  A \<open>3 \<times> 2\<close> image used to instantiate the theorems: black, white, black in the first
  row and black, white, white in the second.
\<close>

definition exData :: "byte list" where
  "exData = [0, 0, 0, 255,  255, 255, 255, 255,  0, 0, 0, 255,
             0, 0, 0, 255,  255, 255, 255, 255,  255, 255, 255, 255]"

definition exState :: globals where
  "exState = initial\<lparr>g_W := 3, g_H := 2\<rparr>"

subsection \<open>A small scene\<close>

text \<open>
  A \<open>3 \<times> 1\<close> scene used to instantiate the theorems: the base image is black, white,
  black, so that pixels 0 and 2 are two components; the item \<open>skis\<close> has one anchor in
  each, the anchor of \<open>socks\<close> lands on the white pixel. The overlay image has another
  natural size and is drawn at the size of the base image.
\<close>

definition exGrey :: "byte list" where
  "exGrey = [0, 0, 0, 255,  255, 255, 255, 255,  0, 0, 0, 255]"

definition exColor :: "byte list" where
  "exColor = [200, 10, 10, 255,  255, 255, 255, 255,  10, 10, 200, 255]"

definition exItems :: "item list" where
  "exItems =
     [\<lparr>key = ''skis'', title = ''Skis'', message = ''two parts'', pts = [(1 / 8, 1 / 2), (7 / 8, 1 / 2)]\<rparr>,
      \<lparr>key = ''socks'', title = ''Socks'', message = ''none'', pts = [(1 / 2, 1 / 2)]\<rparr>]"

definition exScene :: globals where
  "exScene =
     \<lparr>g_W = 3, g_H = 1, g_greyData = exGrey, g_colorData = exColor, g_compIdAt = [1, 0, 2],
      g_compCount = 2,
      g_compToItemKey = [1 \<mapsto> ''skis'', 2 \<mapsto> ''skis''],
      g_itemKeyToInfo = [''skis'' \<mapsto> (''Skis'', ''two parts''), ''socks'' \<mapsto> (''Socks'', ''none'')],
      g_itemKeyToComps = [''skis'' \<mapsto> [1, 2], ''socks'' \<mapsto> []],
      g_hoverItemKey = None, g_canvas = exGrey\<rparr>"

definition exRect :: rect where
  "exRect = \<lparr>rect_left = 0, rect_top = 0, rect_width = 3, rect_height = 1\<rparr>"

definition exGreyImg :: image where
  "exGreyImg = \<lparr>naturalWidth = 3, naturalHeight = 1, drawn = (\<lambda>W H. exGrey)\<rparr>"

definition exColorImg :: image where
  "exColorImg = \<lparr>naturalWidth = 6, naturalHeight = 2, drawn = (\<lambda>W H. exColor)\<rparr>"




text \<open>The label set that the anchors of one item resolve to (lines 158-164).\<close>

definition itemLabels :: "nat \<Rightarrow> nat \<Rightarrow> nat list \<Rightarrow> item \<Rightarrow> nat list" where
  "itemLabels W H compIdAt it = foldl (addPoint W H compIdAt) [] (pts it)"

section \<open>Theorems\<close>

subsection \<open>Arithmetic of pixel positions\<close>

lemma toUint32_id: "n < 2 ^ 32 \<Longrightarrow> toUint32 n = n"
  by (simp add: toUint32_def)

lemma toInt32_id: "n < 2 ^ 31 \<Longrightarrow> toInt32 n = int n"
  by (simp add: toInt32_def Let_def)

lemma adjacent_sym: "adjacent W H p q \<Longrightarrow> adjacent W H q p"
  by (auto simp: adjacent_def)

lemma adjacent_bound: "adjacent W H p q \<Longrightarrow> p < W * H \<and> q < W * H"
  by (simp add: adjacent_def)

lemma pixel_row_col:
  assumes "x < (W::nat)" "y < (H::nat)"
  shows "y * W + x < W * H" "(y * W + x) div W = y" "(y * W + x) mod W = x"
proof -
  have "y * W + x < y * W + W" using assms by simp
  also have "\<dots> = Suc y * W" by simp
  also have "\<dots> \<le> H * W" using assms by (intro mult_le_mono1) simp
  finally show "y * W + x < W * H" by (simp add: mult.commute)
  show "(y * W + x) div W = y" using assms by simp
  show "(y * W + x) mod W = x" using assms by simp
qed

lemma pixelOf_inBounds:
  assumes "inBounds W H (nx, ny)"
  shows "pixelOf W (nx, ny) = nat ny * W + nat nx" "nat nx < W" "nat ny < H"
proof -
  from assms have b: "0 \<le> nx" "nx < int W" "0 \<le> ny" "ny < int H"
    by (auto simp: inBounds_def)
  then show "nat nx < W" "nat ny < H" by auto
  obtain x y where xy: "nx = int x" "ny = int y"
    using b(1) b(3) by (meson nonneg_int_cases)
  have "idx W nx ny = int (y * W + x)"
    by (simp add: idx_def xy)
  then have "nat (idx W nx ny) = y * W + x"
    by (simp only: nat_int)
  then show "pixelOf W (nx, ny) = nat ny * W + nat nx"
    by (simp add: pixelOf_def xy)
qed

lemma nbs_eq:
  assumes "q < W * H" "W * H < 2 ^ 31"
  shows "nbs W q = [(int (q mod W) - 1, int (q div W)), (int (q mod W) + 1, int (q div W)),
                    (int (q mod W), int (q div W) - 1), (int (q mod W), int (q div W) + 1)]"
proof -
  have "q div W \<le> q" by simp
  with assms have "q div W < 2 ^ 31" by linarith
  then show ?thesis by (simp add: nbs_def Let_def toInt32_id)
qed

lemma nbs_adjacent:
  assumes q: "q < W * H" and small: "W * H < 2 ^ 31"
    and n: "n \<in> set (nbs W q)" and inb: "inBounds W H n"
  shows "adjacent W H q (pixelOf W n)"
proof -
  obtain nx ny where nn: "n = (nx, ny)" by (cases n)
  have W0: "0 < W" using q by (cases W) auto
  have qx: "q mod W < W" using W0 by simp
  have qy: "q div W < H" using q by (simp add: less_mult_imp_div_less mult.commute)
  note pb = pixelOf_inBounds [OF inb [unfolded nn]]
  have rc: "pixelOf W n < W * H" "pixelOf W n div W = nat ny" "pixelOf W n mod W = nat nx"
    using pixel_row_col [OF pb(2) pb(3)] pb(1) by (simp_all add: nn)
  from n have "n = (int (q mod W) - 1, int (q div W)) \<or> n = (int (q mod W) + 1, int (q div W)) \<or>
      n = (int (q mod W), int (q div W) - 1) \<or> n = (int (q mod W), int (q div W) + 1)"
    by (simp add: nbs_eq [OF q small])
  then show ?thesis
    using inb rc q unfolding adjacent_def nn inBounds_def
    by (elim disjE) (auto simp: nat_diff_distrib nat_add_distrib)
qed

lemma nbs_complete:
  assumes q: "q < W * H" and small: "W * H < 2 ^ 31" and adj: "adjacent W H q r"
  shows "\<exists>n\<in>set (nbs W q). inBounds W H n \<and> pixelOf W n = r"
proof -
  have r: "r < W * H" using adj by (simp add: adjacent_def)
  have W0: "0 < W" using q by (cases W) auto
  have rx: "r mod W < W" using W0 by simp
  have ry: "r div W < H" using r by (simp add: less_mult_imp_div_less mult.commute)
  let ?n = "(int (r mod W), int (r div W))"
  have inb: "inBounds W H ?n" using rx ry by (simp add: inBounds_def)
  have "pixelOf W ?n = r div W * W + r mod W"
    using pixelOf_inBounds(1) [OF inb] by simp
  then have px: "pixelOf W ?n = r" by simp
  have "?n \<in> set (nbs W q)"
    using adj unfolding nbs_eq [OF q small] adjacent_def
    by (auto simp: of_nat_diff algebra_simps) 
  with inb px show ?thesis by blast
qed

subsection \<open>The flood fill\<close>

lemma lstep_mono:
  assumes "\<And>r. r < W * H \<Longrightarrow> lab ! r = L \<Longrightarrow> lab' ! r = L"
    and "(lstep W H lab L)\<^sup>*\<^sup>* p q"
  shows "(lstep W H lab' L)\<^sup>*\<^sup>* p q"
  using assms(2)
proof (induction rule: rtranclp_induct)
  case base
  show ?case by simp
next
  case (step y z)
  from step.hyps(2) have "lstep W H lab' L y z"
    using assms(1) by (auto simp: lstep_def adjacent_def)
  with step.IH show ?case by (rule rtranclp.rtrancl_into_rtrancl)
qed

lemma lstep_sym:
  assumes "(lstep W H lab L)\<^sup>*\<^sup>* p q"
  shows "(lstep W H lab L)\<^sup>*\<^sup>* q p"
  using assms
proof (induction rule: rtranclp_induct)
  case base
  show ?case by simp
next
  case (step y z)
  from step.hyps(2) have l: "lstep W H lab L z y"
    by (auto simp: lstep_def dest: adjacent_sym)
  show ?case by (rule converse_rtranclp_into_rtranclp [OF l step.IH])
qed

lemma count_list_update_zero:
  "i < length xs \<Longrightarrow> xs ! i = 0 \<Longrightarrow> v \<noteq> 0 \<Longrightarrow> Suc (count_list (xs[i := v]) 0) = count_list xs (0::nat)"
proof (induction xs arbitrary: i)
  case Nil
  then show ?case by simp
next
  case (Cons x xs)
  then show ?case by (cases i) auto
qed

lemma visit_eq:
  assumes "c < 2 ^ 32"
  shows "visit W H data c (lab, st) n =
     (if inBounds W H n \<and> lab ! pixelOf W n = 0 \<and> fgAt data (pixelOf W n)
      then (lab[pixelOf W n := c], pixelOf W n # st) else (lab, st))"
proof -
  have upd: "lab ! i = 0 \<Longrightarrow> lab[i := 0] = lab" for i
    by (metis list_update_id)
  show ?thesis
    by (cases n) (auto simp: visit_def inBounds_def pixelOf_def Let_def toUint32_id [OF assms] upd)
qed

lemma push_inv:
  assumes inv: "fillInv W H data c seed lab0 X lab"
    and q: "q \<in> X" and adj: "adjacent W H q r" and z: "lab ! r = 0" and fg: "fgAt data r"
  shows "fillInv W H data c seed lab0 (insert r X) (lab[r := c])"
proof -
  from inv have len: "length lab = W * H" and seed: "seed < W * H" "lab ! seed = c" and c0: "0 < c"
    and fgs: "\<And>p. p < W * H \<Longrightarrow> lab ! p \<noteq> 0 \<Longrightarrow> fgAt data p"
    and X: "\<And>p. p \<in> X \<Longrightarrow> p < W * H \<and> lab ! p = c"
    and closed: "\<And>p q. adjacent W H p q \<Longrightarrow> fgAt data q \<Longrightarrow> lab ! p \<noteq> 0 \<Longrightarrow> p \<notin> X \<Longrightarrow> lab ! q = lab ! p"
    and conn: "\<And>p. p < W * H \<Longrightarrow> lab ! p = c \<Longrightarrow> (lstep W H lab c)\<^sup>*\<^sup>* seed p"
    and frame: "\<And>p. p < W * H \<Longrightarrow> lab ! p = lab0 ! p \<or> (lab0 ! p = 0 \<and> lab ! p = c)"
    unfolding fillInv_def by blast+
  let ?lab = "lab[r := c]"
  have r: "r < W * H" and qb: "q < W * H" using adj by (simp_all add: adjacent_def)
  have nth: "?lab ! p = (if p = r then c else lab ! p)" if "p < W * H" for p
    using that len by (simp add: nth_list_update)
  have keep: "?lab ! s = c" if "s < W * H" "lab ! s = c" for s
    using that nth by simp
  have qc: "lab ! q = c" using X [OF q] by simp
  have P1: "length ?lab = W * H" using len by simp
  have P3: "?lab ! seed = c" using keep seed by simp
  have P5: "\<forall>p<W * H. ?lab ! p \<noteq> 0 \<longrightarrow> fgAt data p"
    using nth fgs fg by auto
  have P6: "\<forall>p\<in>insert r X. p < W * H \<and> ?lab ! p = c"
    using nth X r by auto
  have P7: "\<forall>p q. adjacent W H p q \<and> fgAt data q \<and> ?lab ! p \<noteq> 0 \<and> p \<notin> insert r X
      \<longrightarrow> ?lab ! q = ?lab ! p"
  proof (intro allI impI, elim conjE)
    fix p s
    assume a: "adjacent W H p s" "fgAt data s" "?lab ! p \<noteq> 0" "p \<notin> insert r X"
    then have pb: "p < W * H" "s < W * H" by (simp_all add: adjacent_def)
    from a pb nth have p: "p \<noteq> r" "lab ! p \<noteq> 0" "p \<notin> X" "?lab ! p = lab ! p" by auto
    from closed [OF a(1) a(2) p(2) p(3)] have e: "lab ! s = lab ! p" .
    with p z have "s \<noteq> r" by auto
    with nth pb e p show "?lab ! s = ?lab ! p" by simp
  qed
  have mono: "(lstep W H ?lab c)\<^sup>*\<^sup>* a b" if "(lstep W H lab c)\<^sup>*\<^sup>* a b" for a b
    using keep that by (rule lstep_mono)
  have P8: "\<forall>p<W * H. ?lab ! p = c \<longrightarrow> (lstep W H ?lab c)\<^sup>*\<^sup>* seed p"
  proof (intro allI impI)
    fix p assume p: "p < W * H" "?lab ! p = c"
    show "(lstep W H ?lab c)\<^sup>*\<^sup>* seed p"
    proof (cases "p = r")
      case True
      have "(lstep W H ?lab c)\<^sup>*\<^sup>* seed q" using conn [OF qb qc] by (rule mono)
      moreover have "lstep W H ?lab c q r"
        using adj keep [OF qb qc] nth [OF r] by (simp add: lstep_def)
      ultimately show ?thesis unfolding True by (rule rtranclp.rtrancl_into_rtrancl)
    next
      case False
      with p nth have "lab ! p = c" by simp
      from conn [OF p(1) this] show ?thesis by (rule mono)
    qed
  qed
  have P9: "\<forall>p<W * H. ?lab ! p = lab0 ! p \<or> (lab0 ! p = 0 \<and> ?lab ! p = c)"
    using nth frame z c0 by (metis less_not_refl)
  show ?thesis
    unfolding fillInv_def using P1 seed(1) P3 c0 P5 P6 P7 P8 P9 by blast
qed

lemma visit_inv:
  assumes inv: "fillInv W H data c seed lab0 (insert q (set st)) lab"
    and small: "c < 2 ^ 32"
    and adj: "inBounds W H n \<longrightarrow> adjacent W H q (pixelOf W n)"
    and res: "visit W H data c (lab, st) n = (lab', st')"
  shows "fillInv W H data c seed lab0 (insert q (set st')) lab' \<and>
    (inBounds W H n \<longrightarrow> fgAt data (pixelOf W n) \<longrightarrow> lab' ! pixelOf W n = c) \<and>
    (\<forall>p<W * H. lab ! p \<noteq> 0 \<longrightarrow> lab' ! p = lab ! p) \<and>
    fillMeasure lab' st' \<le> fillMeasure lab st"
proof -
  let ?r = "pixelOf W n"
  from inv have len: "length lab = W * H" and c0: "0 < c"
    and fgs: "\<And>p. p < W * H \<Longrightarrow> lab ! p \<noteq> 0 \<Longrightarrow> fgAt data p"
    and X: "\<And>p. p \<in> insert q (set st) \<Longrightarrow> p < W * H \<and> lab ! p = c"
    and closed: "\<And>p s. adjacent W H p s \<Longrightarrow> fgAt data s \<Longrightarrow> lab ! p \<noteq> 0 \<Longrightarrow> p \<notin> insert q (set st)
        \<Longrightarrow> lab ! s = lab ! p"
    unfolding fillInv_def by blast+
  have q: "q < W * H" "lab ! q = c" using X by auto
  show ?thesis
  proof (cases "inBounds W H n \<and> lab ! ?r = 0 \<and> fgAt data ?r")
    case True
    with res have eq: "lab' = lab[?r := c]" "st' = ?r # st"
      by (simp_all add: visit_eq [OF small])
    from True adj have a: "adjacent W H q ?r" by simp
    then have r: "?r < W * H" by (simp add: adjacent_def)
    have "fillInv W H data c seed lab0 (insert ?r (insert q (set st))) (lab[?r := c])"
      by (rule push_inv [OF inv _ a]) (use True in simp_all)
    then have 1: "fillInv W H data c seed lab0 (insert q (set st')) lab'"
      by (simp add: eq insert_commute)
    have 2: "inBounds W H n \<longrightarrow> fgAt data ?r \<longrightarrow> lab' ! ?r = c"
      using r len by (simp add: eq)
    have 3: "\<forall>p<W * H. lab ! p \<noteq> 0 \<longrightarrow> lab' ! p = lab ! p"
    proof (intro allI impI)
      fix p assume "p < W * H" "lab ! p \<noteq> 0"
      with True have "p \<noteq> ?r" by auto
      then show "lab' ! p = lab ! p" by (simp add: eq)
    qed
    have "Suc (count_list (lab[?r := c]) 0) = count_list lab 0"
      using r len True c0 by (intro count_list_update_zero) simp_all
    then have 4: "fillMeasure lab' st' \<le> fillMeasure lab st"
      by (simp add: fillMeasure_def eq)
    from 1 2 3 4 show ?thesis by blast
  next
    case False
    with res have eq: "lab' = lab" "st' = st"
      by (simp_all add: visit_eq [OF small])
    have 2: "inBounds W H n \<longrightarrow> fgAt data ?r \<longrightarrow> lab' ! ?r = c"
    proof (intro impI)
      assume inb: "inBounds W H n" and fg: "fgAt data ?r"
      with False have nz: "lab ! ?r \<noteq> 0" by simp
      from inb adj have "adjacent W H q ?r" by simp
      then have a: "adjacent W H ?r q" by (rule adjacent_sym)
      have fq: "fgAt data q" using fgs q c0 by simp
      show "lab' ! ?r = c"
      proof (cases "?r \<in> insert q (set st)")
        case True
        then show ?thesis using X by (simp add: eq)
      next
        case False
        from closed [OF a fq nz False] q show ?thesis by (simp add: eq)
      qed
    qed
    with inv show ?thesis by (simp add: eq)
  qed
qed

lemma fold_visit_inv:
  assumes "fillInv W H data c seed lab0 (insert q (set st)) lab"
    and "c < 2 ^ 32"
    and "\<forall>n\<in>set ns. inBounds W H n \<longrightarrow> adjacent W H q (pixelOf W n)"
    and "foldl (visit W H data c) (lab, st) ns = (lab', st')"
  shows "fillInv W H data c seed lab0 (insert q (set st')) lab' \<and>
     (\<forall>n\<in>set ns. inBounds W H n \<longrightarrow> fgAt data (pixelOf W n) \<longrightarrow> lab' ! pixelOf W n = c) \<and>
     (\<forall>p<W * H. lab ! p \<noteq> 0 \<longrightarrow> lab' ! p = lab ! p) \<and>
     fillMeasure lab' st' \<le> fillMeasure lab st"
  using assms
proof (induction ns arbitrary: lab st)
  case Nil
  then show ?case by simp
next
  case (Cons n ns)
  obtain lab1 st1 where v: "visit W H data c (lab, st) n = (lab1, st1)"
    by (cases "visit W H data c (lab, st) n")
  have adj: "inBounds W H n \<longrightarrow> adjacent W H q (pixelOf W n)"
    using Cons.prems(3) by simp
  note V = visit_inv [OF Cons.prems(1) Cons.prems(2) adj v]
  have rest: "\<forall>n\<in>set ns. inBounds W H n \<longrightarrow> adjacent W H q (pixelOf W n)"
    using Cons.prems(3) by simp
  have f: "foldl (visit W H data c) (lab1, st1) ns = (lab', st')"
    using Cons.prems(4) v by simp
  from V have V1: "fillInv W H data c seed lab0 (insert q (set st1)) lab1" by simp
  note I = Cons.IH [OF V1 Cons.prems(2) rest f]
  have c0: "0 < c" using Cons.prems(1) by (simp add: fillInv_def)
  have head: "inBounds W H n \<longrightarrow> fgAt data (pixelOf W n) \<longrightarrow> lab' ! pixelOf W n = c"
  proof (intro impI)
    assume a: "inBounds W H n" "fgAt data (pixelOf W n)"
    with adj have "pixelOf W n < W * H" by (simp add: adjacent_def)
    moreover from a V have "lab1 ! pixelOf W n = c" by simp
    ultimately show "lab' ! pixelOf W n = c" using I c0 by auto
  qed
  have keep: "\<forall>p<W * H. lab ! p \<noteq> 0 \<longrightarrow> lab' ! p = lab ! p"
    using V I by auto
  have "fillMeasure lab' st' \<le> fillMeasure lab st"
    using V I by linarith
  with I head keep show ?case by simp
qed

lemma fill_step:
  assumes inv: "fillInv W H data c seed lab0 (set (q # rest)) lab"
    and small: "W * H < 2 ^ 31" and c: "c < 2 ^ 32"
    and res: "foldl (visit W H data c) (lab, rest) (nbs W q) = (lab', st')"
  shows "fillInv W H data c seed lab0 (set st') lab'"
    and "fillMeasure lab' st' < fillMeasure lab (q # rest)"
proof -
  have inv': "fillInv W H data c seed lab0 (insert q (set rest)) lab"
    using inv by simp
  then have q: "q < W * H" by (simp add: fillInv_def)
  have adj: "\<forall>n\<in>set (nbs W q). inBounds W H n \<longrightarrow> adjacent W H q (pixelOf W n)"
    using nbs_adjacent [OF q small] by blast
  note F = fold_visit_inv [OF inv' c adj res]
  from F have I: "fillInv W H data c seed lab0 (insert q (set st')) lab'" by simp
  from F have nb: "\<And>n. n \<in> set (nbs W q) \<Longrightarrow> inBounds W H n \<Longrightarrow> fgAt data (pixelOf W n)
      \<Longrightarrow> lab' ! pixelOf W n = c" by blast
  from F have "fillMeasure lab' st' \<le> fillMeasure lab rest" by simp
  then show "fillMeasure lab' st' < fillMeasure lab (q # rest)"
    by (simp add: fillMeasure_def)
  from I have qc: "lab' ! q = c" by (simp add: fillInv_def)
  have closed: "\<forall>p s. adjacent W H p s \<and> fgAt data s \<and> lab' ! p \<noteq> 0 \<and> p \<notin> set st'
      \<longrightarrow> lab' ! s = lab' ! p"
  proof (intro allI impI, elim conjE)
    fix p s
    assume a: "adjacent W H p s" "fgAt data s" "lab' ! p \<noteq> 0" "p \<notin> set st'"
    show "lab' ! s = lab' ! p"
    proof (cases "p = q")
      case True
      from nbs_complete [OF q small a(1) [unfolded True]]
      obtain n where "n \<in> set (nbs W q)" "inBounds W H n" "pixelOf W n = s" by blast
      with nb a(2) have "lab' ! s = c" by blast
      with qc True show ?thesis by simp
    next
      case False
      with a I show ?thesis unfolding fillInv_def by blast
    qed
  qed
  with I show "fillInv W H data c seed lab0 (set st') lab'"
    unfolding fillInv_def by blast
qed

lemma floodFill_total:
  assumes "fillInv W H data c seed lab0 (set st) lab"
    and small: "W * H < 2 ^ 31" and c: "c < 2 ^ 32"
  shows "\<exists>lab'. floodFill W H data c lab st = Some lab' \<and> fillInv W H data c seed lab0 {} lab'"
  using assms(1)
proof (induction "fillMeasure lab st" arbitrary: lab st rule: less_induct)
  case less
  show ?case
  proof (cases st)
    case Nil
    with less.prems show ?thesis
      by (subst floodFill.simps) simp
  next
    case (Cons q rest)
    obtain lab1 st1 where f: "foldl (visit W H data c) (lab, rest) (nbs W q) = (lab1, st1)"
      by (cases "foldl (visit W H data c) (lab, rest) (nbs W q)")
    note S = fill_step [OF less.prems [unfolded Cons] small c f]
    from less.hyps [OF S(2) [folded Cons] S(1)]
    obtain lab' where "floodFill W H data c lab1 st1 = Some lab'"
      "fillInv W H data c seed lab0 {} lab'" by blast
    moreover have "floodFill W H data c lab st = floodFill W H data c lab1 st1"
      by (subst floodFill.simps) (simp add: Cons f)
    ultimately show ?thesis by simp
  qed
qed

subsection \<open>The scanning loops\<close>

lemma forLoop_rule:
  assumes "P i s" and "i \<le> n"
    and "\<And>j t. i \<le> j \<Longrightarrow> j < n \<Longrightarrow> P j t \<Longrightarrow> \<exists>t'. body j t = Some t' \<and> P (Suc j) t'"
  shows "\<exists>t. forLoop i n body s = Some t \<and> P n t"
  using assms
proof (induction "n - i" arbitrary: i s)
  case 0
  then have "i = n" by simp
  with "0.prems"(1) show ?case by (subst forLoop.simps) simp
next
  case (Suc k)
  then have lt: "i < n" by simp
  from Suc.prems(3) [OF le_refl lt Suc.prems(1)]
  obtain t' where b: "body i s = Some t'" "P (Suc i) t'" by blast
  have k: "k = n - Suc i" using Suc.hyps(2) by simp
  have "\<exists>t. forLoop (Suc i) n body t' = Some t \<and> P n t"
  proof (rule Suc.hyps(1) [OF k b(2)])
    show "Suc i \<le> n" using lt by simp
    show "\<exists>t'. body j t = Some t' \<and> P (Suc j) t'" if "Suc i \<le> j" "j < n" "P j t" for j t
      using Suc.prems(3) [of j t] that by simp
  qed
  moreover have "forLoop i n body s = forLoop (Suc i) n body t'"
    using lt b(1) by (subst forLoop.simps) simp
  ultimately show ?case by simp
qed

lemma scanInv_init: "scanInv W H data 0 (replicate (W * H) 0, 0)"
  by (auto simp: scanInv_def adjacent_def)

lemma fillInvD:
  assumes "fillInv W H data c seed lab0 X lab"
  shows "length lab = W * H" and "seed < W * H" and "lab ! seed = c" and "0 < c"
    and "\<forall>p<W * H. lab ! p \<noteq> 0 \<longrightarrow> fgAt data p"
    and "\<forall>p\<in>X. p < W * H \<and> lab ! p = c"
    and "\<forall>p q. adjacent W H p q \<and> fgAt data q \<and> lab ! p \<noteq> 0 \<and> p \<notin> X \<longrightarrow> lab ! q = lab ! p"
    and "\<forall>p<W * H. lab ! p = c \<longrightarrow> (lstep W H lab c)\<^sup>*\<^sup>* seed p"
    and "\<forall>p<W * H. lab ! p = lab0 ! p \<or> (lab0 ! p = 0 \<and> lab ! p = c)"
proof -
  note I = assms [unfolded fillInv_def]
  show "length lab = W * H" by (rule I [THEN conjunct1])
  note I = I [THEN conjunct2]
  show "seed < W * H" by (rule I [THEN conjunct1])
  note I = I [THEN conjunct2]
  show "lab ! seed = c" by (rule I [THEN conjunct1])
  note I = I [THEN conjunct2]
  show "0 < c" by (rule I [THEN conjunct1])
  note I = I [THEN conjunct2]
  show "\<forall>p<W * H. lab ! p \<noteq> 0 \<longrightarrow> fgAt data p" by (rule I [THEN conjunct1])
  note I = I [THEN conjunct2]
  show "\<forall>p\<in>X. p < W * H \<and> lab ! p = c" by (rule I [THEN conjunct1])
  note I = I [THEN conjunct2]
  show "\<forall>p q. adjacent W H p q \<and> fgAt data q \<and> lab ! p \<noteq> 0 \<and> p \<notin> X \<longrightarrow> lab ! q = lab ! p"
    by (rule I [THEN conjunct1])
  note I = I [THEN conjunct2]
  show "\<forall>p<W * H. lab ! p = c \<longrightarrow> (lstep W H lab c)\<^sup>*\<^sup>* seed p" by (rule I [THEN conjunct1])
  show "\<forall>p<W * H. lab ! p = lab0 ! p \<or> (lab0 ! p = 0 \<and> lab ! p = c)" by (rule I [THEN conjunct2])
qed

lemma scanInvD:
  assumes "scanInv W H data n (lab, cid)"
  shows "length lab = W * H" and "cid \<le> n"
    and "\<forall>p<W * H. lab ! p \<noteq> 0 \<longrightarrow> fgAt data p"
    and "\<forall>p<n. fgAt data p \<longrightarrow> lab ! p \<noteq> 0"
    and "\<forall>p q. adjacent W H p q \<and> fgAt data q \<and> lab ! p \<noteq> 0 \<longrightarrow> lab ! q = lab ! p"
    and "\<forall>p<W * H. lab ! p \<le> cid"
    and "\<forall>p<W * H. \<forall>q<W * H. lab ! p = lab ! q \<and> lab ! p \<noteq> 0 \<longrightarrow> (lstep W H lab (lab ! p))\<^sup>*\<^sup>* p q"
    and "\<forall>L. 0 < L \<and> L \<le> cid \<longrightarrow>
           (\<exists>m<n. lab ! m = L \<and> (\<forall>q<W * H. lab ! q = L \<longrightarrow> m \<le> q) \<and> (\<forall>q<m. lab ! q < L))"
proof -
  note I = assms [unfolded scanInv_def prod.case]
  show "length lab = W * H" by (rule I [THEN conjunct1])
  note I = I [THEN conjunct2]
  show "cid \<le> n" by (rule I [THEN conjunct1])
  note I = I [THEN conjunct2]
  show "\<forall>p<W * H. lab ! p \<noteq> 0 \<longrightarrow> fgAt data p" by (rule I [THEN conjunct1])
  note I = I [THEN conjunct2]
  show "\<forall>p<n. fgAt data p \<longrightarrow> lab ! p \<noteq> 0" by (rule I [THEN conjunct1])
  note I = I [THEN conjunct2]
  show "\<forall>p q. adjacent W H p q \<and> fgAt data q \<and> lab ! p \<noteq> 0 \<longrightarrow> lab ! q = lab ! p"
    by (rule I [THEN conjunct1])
  note I = I [THEN conjunct2]
  show "\<forall>p<W * H. lab ! p \<le> cid" by (rule I [THEN conjunct1])
  note I = I [THEN conjunct2]
  show "\<forall>p<W * H. \<forall>q<W * H. lab ! p = lab ! q \<and> lab ! p \<noteq> 0 \<longrightarrow> (lstep W H lab (lab ! p))\<^sup>*\<^sup>* p q"
    by (rule I [THEN conjunct1])
  show "\<forall>L. 0 < L \<and> L \<le> cid \<longrightarrow>
           (\<exists>m<n. lab ! m = L \<and> (\<forall>q<W * H. lab ! q = L \<longrightarrow> m \<le> q) \<and> (\<forall>q<m. lab ! q < L))"
    by (rule I [THEN conjunct2])
qed

lemma scanInvI:
  assumes "length lab = W * H" and "cid \<le> n"
    and "\<forall>p<W * H. lab ! p \<noteq> 0 \<longrightarrow> fgAt data p"
    and "\<forall>p<n. fgAt data p \<longrightarrow> lab ! p \<noteq> 0"
    and "\<forall>p q. adjacent W H p q \<and> fgAt data q \<and> lab ! p \<noteq> 0 \<longrightarrow> lab ! q = lab ! p"
    and "\<forall>p<W * H. lab ! p \<le> cid"
    and "\<forall>p<W * H. \<forall>q<W * H. lab ! p = lab ! q \<and> lab ! p \<noteq> 0 \<longrightarrow> (lstep W H lab (lab ! p))\<^sup>*\<^sup>* p q"
    and "\<forall>L. 0 < L \<and> L \<le> cid \<longrightarrow>
           (\<exists>m<n. lab ! m = L \<and> (\<forall>q<W * H. lab ! q = L \<longrightarrow> m \<le> q) \<and> (\<forall>q<m. lab ! q < L))"
  shows "scanInv W H data n (lab, cid)"
  unfolding scanInv_def prod.case
  by (intro conjI) (rule assms)+

lemma idx_nat: "nat (idx W (int x) (int y)) = y * W + x"
proof -
  have "idx W (int x) (int y) = int (y * W + x)" by (simp add: idx_def)
  then show ?thesis by (simp only: nat_int)
qed

lemma scanPixel_inv:
  assumes inv: "scanInv W H data n (lab, cid)"
    and n: "n < W * H" and small: "W * H < 2 ^ 31" and xy: "n = y * W + x"
  shows "\<exists>s'. scanPixel W H data y x (lab, cid) = Some s' \<and> scanInv W H data (Suc n) s'"
proof -
  note D = scanInvD [OF inv]
  note len = D(1) and cn = D(2)
  have fgs: "fgAt data p" if "p < W * H" "lab ! p \<noteq> 0" for p
    using D(3) that by blast
  have scanned: "lab ! p \<noteq> 0" if "p < n" "fgAt data p" for p
    using D(4) that by blast
  have closed: "lab ! q = lab ! p" if "adjacent W H p q" "fgAt data q" "lab ! p \<noteq> 0" for p q
    using D(5) that by blast
  have le: "lab ! p \<le> cid" if "p < W * H" for p
    using D(6) that by blast
  have conn: "(lstep W H lab (lab ! p))\<^sup>*\<^sup>* p q"
    if "p < W * H" "q < W * H" "lab ! p = lab ! q" "lab ! p \<noteq> 0" for p q
    using D(7) that by blast
  have firsts: "\<exists>m<n. lab ! m = L \<and> (\<forall>q<W * H. lab ! q = L \<longrightarrow> m \<le> q) \<and> (\<forall>q<m. lab ! q < L)"
    if "0 < L" "L \<le> cid" for L
    using D(8) that by blast
  have p: "nat (idx W (int x) (int y)) = n" by (simp add: idx_nat xy)
  show ?thesis
  proof (cases "lab ! n \<noteq> 0 \<or> \<not> fgAt data n")
    case True
    have upd: "lab ! n = 0 \<Longrightarrow> lab[n := 0] = lab" by (metis list_update_id)
    from True have eq: "scanPixel W H data y x (lab, cid) = Some (lab, cid)"
      by (auto simp: scanPixel_def p Let_def upd)
    have d: "\<forall>p<Suc n. fgAt data p \<longrightarrow> lab ! p \<noteq> 0"
      using scanned True by (auto simp: less_Suc_eq)
    have f: "\<forall>L. 0 < L \<and> L \<le> cid \<longrightarrow>
        (\<exists>m<Suc n. lab ! m = L \<and> (\<forall>q<W * H. lab ! q = L \<longrightarrow> m \<le> q) \<and> (\<forall>q<m. lab ! q < L))"
    proof (intro allI impI, elim conjE)
      fix L assume "0 < L" "L \<le> cid"
      from firsts [OF this] obtain m where "m < n" "lab ! m = L"
        "\<forall>q<W * H. lab ! q = L \<longrightarrow> m \<le> q" "\<forall>q<m. lab ! q < L" by blast
      moreover from this have "m < Suc n" by simp
      ultimately show "\<exists>m<Suc n. lab ! m = L \<and> (\<forall>q<W * H. lab ! q = L \<longrightarrow> m \<le> q) \<and> (\<forall>q<m. lab ! q < L)"
        by blast
    qed
    have cn': "cid \<le> Suc n" using cn by simp
    have "scanInv W H data (Suc n) (lab, cid)"
      by (rule scanInvI [OF len cn' D(3) d D(5) D(6) D(7) f])
    with eq show ?thesis by simp
  next
    case False
    then have z: "lab ! n = 0" and fg: "fgAt data n" by simp_all
    define c where "c = cid + 1"
    have c0: "0 < c" and cS: "c \<le> Suc n" and c32: "c < 2 ^ 32" and cgt: "cid < c"
      using cn n small by (simp_all add: c_def)
    define lab1 where "lab1 = lab[n := c]"
    have nth1: "lab1 ! p = (if p = n then c else lab ! p)" if "p < W * H" for p
      using that len by (simp add: lab1_def nth_list_update)
    have F: "fillInv W H data c n lab (set [n]) lab1"
      unfolding fillInv_def
    proof (intro conjI)
      show "length lab1 = W * H" by (simp add: lab1_def len)
      show "n < W * H" by fact
      show "lab1 ! n = c" using nth1 n by simp
      show "0 < c" by fact
      show "\<forall>p<W * H. lab1 ! p \<noteq> 0 \<longrightarrow> fgAt data p"
        using nth1 fgs fg by auto
      show "\<forall>p\<in>set [n]. p < W * H \<and> lab1 ! p = c"
        using nth1 n by simp
      show "\<forall>p q. adjacent W H p q \<and> fgAt data q \<and> lab1 ! p \<noteq> 0 \<and> p \<notin> set [n] \<longrightarrow> lab1 ! q = lab1 ! p"
      proof (intro allI impI, elim conjE)
        fix p q assume a: "adjacent W H p q" "fgAt data q" "lab1 ! p \<noteq> 0" "p \<notin> set [n]"
        then have b: "p < W * H" "q < W * H" by (simp_all add: adjacent_def)
        from a b nth1 have pp: "p \<noteq> n" "lab ! p \<noteq> 0" "lab1 ! p = lab ! p" by auto
        from closed [OF a(1) a(2) pp(2)] have e: "lab ! q = lab ! p" .
        with pp z have "q \<noteq> n" by auto
        with nth1 b e pp show "lab1 ! q = lab1 ! p" by simp
      qed
      show "\<forall>p<W * H. lab1 ! p = c \<longrightarrow> (lstep W H lab1 c)\<^sup>*\<^sup>* n p"
      proof (intro allI impI)
        fix p assume a: "p < W * H" "lab1 ! p = c"
        have "p = n"
        proof (rule ccontr)
          assume "p \<noteq> n"
          with a nth1 have "lab ! p = c" by simp
          with le [OF a(1)] cgt show False by simp
        qed
        then show "(lstep W H lab1 c)\<^sup>*\<^sup>* n p" by simp
      qed
      show "\<forall>p<W * H. lab1 ! p = lab ! p \<or> lab ! p = 0 \<and> lab1 ! p = c"
        using nth1 z by auto
    qed
    from floodFill_total [OF F small c32]
    obtain lab' where ff: "floodFill W H data c lab1 [n] = Some lab'"
      and FI: "fillInv W H data c n lab {} lab'" by blast
    have tu: "toUint32 (cid + 1) = cid + 1"
      using toUint32_id [OF c32] by (simp add: c_def)
    have eq: "scanPixel W H data y x (lab, cid) = Some (lab', c)"
      using False ff tu by (simp add: scanPixel_def p Let_def c_def lab1_def)
    note FD = fillInvD [OF FI]
    note len' = FD(1) and seedc = FD(3) and S3 = FD(5)
    have S5: "\<forall>p q. adjacent W H p q \<and> fgAt data q \<and> lab' ! p \<noteq> 0 \<longrightarrow> lab' ! q = lab' ! p"
      using FD(7) by simp
    have conn': "(lstep W H lab' c)\<^sup>*\<^sup>* n p" if "p < W * H" "lab' ! p = c" for p
      using FD(8) that by blast
    have frame: "lab' ! p = lab ! p \<or> (lab ! p = 0 \<and> lab' ! p = c)" if "p < W * H" for p
      using FD(9) that by blast
    have fgs': "fgAt data p" if "p < W * H" "lab' ! p \<noteq> 0" for p
      using S3 that by blast
    have old: "lab' ! p = lab ! p" if "p < n" for p
    proof -
      have pb: "p < W * H" using that n by simp
      show ?thesis
      proof (cases "lab ! p = 0")
        case True
        with scanned [OF that] have "\<not> fgAt data p" by blast
        with fgs' [OF pb] have "lab' ! p = 0" by blast
        with True show ?thesis by simp
      next
        case False
        with frame [OF pb] show ?thesis by simp
      qed
    qed
    have keep: "lab' ! r = L" if "r < W * H" "lab ! r = L" "L \<noteq> 0" for r L
      using frame [OF that(1)] that by auto
    have orig: "lab ! r = L" if "r < W * H" "lab' ! r = L" "L \<noteq> c" for r L
      using frame [OF that(1)] that by auto
    have S4: "\<forall>p<Suc n. fgAt data p \<longrightarrow> lab' ! p \<noteq> 0"
    proof (intro allI impI)
      fix p assume a: "p < Suc n" "fgAt data p"
      show "lab' ! p \<noteq> 0"
      proof (cases "p = n")
        case True
        with seedc c0 show ?thesis by simp
      next
        case False
        with a have "p < n" by simp
        with old [OF this] scanned [OF this a(2)] show ?thesis by simp
      qed
    qed
    have S6: "\<forall>p<W * H. lab' ! p \<le> c"
    proof (intro allI impI)
      fix p assume "p < W * H"
      with frame [of p] le [of p] cgt show "lab' ! p \<le> c" by auto
    qed
    have S7: "\<forall>p<W * H. \<forall>q<W * H. lab' ! p = lab' ! q \<and> lab' ! p \<noteq> 0
        \<longrightarrow> (lstep W H lab' (lab' ! p))\<^sup>*\<^sup>* p q"
    proof (intro allI impI, elim conjE)
      fix p q assume a: "p < W * H" "q < W * H" "lab' ! p = lab' ! q" "lab' ! p \<noteq> 0"
      show "(lstep W H lab' (lab' ! p))\<^sup>*\<^sup>* p q"
      proof (cases "lab' ! p = c")
        case True
        have "(lstep W H lab' c)\<^sup>*\<^sup>* p n"
          using conn' [OF a(1) True] by (rule lstep_sym)
        moreover have "(lstep W H lab' c)\<^sup>*\<^sup>* n q"
          using conn' [OF a(2)] a(3) True by simp
        ultimately show ?thesis unfolding True by (rule rtranclp_trans)
      next
        case False
        let ?L = "lab' ! p"
        have lp: "lab ! p = ?L" using orig [OF a(1) refl False] .
        have lq: "lab ! q = ?L" using orig [OF a(2) a(3) [symmetric] False] .
        have "(lstep W H lab (lab ! p))\<^sup>*\<^sup>* p q"
          using conn [OF a(1) a(2)] lp lq a(4) by simp
        then have "(lstep W H lab ?L)\<^sup>*\<^sup>* p q" by (simp add: lp)
        then show ?thesis
          by (rule lstep_mono [rotated]) (use keep a(4) in blast)
      qed
    qed
    have newfirst: "n \<le> q" if "q < W * H" "lab' ! q = c" for q
    proof (rule ccontr)
      assume "\<not> n \<le> q"
      then have "q < n" by simp
      from old [OF this] that have "lab ! q = c" by simp
      with le [OF that(1)] cgt show False by simp
    qed
    have S8: "\<forall>L. 0 < L \<and> L \<le> c \<longrightarrow>
        (\<exists>m<Suc n. lab' ! m = L \<and> (\<forall>q<W * H. lab' ! q = L \<longrightarrow> m \<le> q) \<and> (\<forall>q<m. lab' ! q < L))"
    proof (intro allI impI, elim conjE)
      fix L assume L: "0 < L" "L \<le> c"
      show "\<exists>m<Suc n. lab' ! m = L \<and> (\<forall>q<W * H. lab' ! q = L \<longrightarrow> m \<le> q) \<and> (\<forall>q<m. lab' ! q < L)"
      proof (cases "L = c")
        case True
        have "\<forall>q<n. lab' ! q < c"
        proof (intro allI impI)
          fix q assume q: "q < n"
          then have "lab' ! q = lab ! q" by (rule old)
          moreover have "lab ! q \<le> cid" using le q n by simp
          ultimately show "lab' ! q < c" using cgt by simp
        qed
        with seedc newfirst show ?thesis unfolding True by blast
      next
        case False
        with L have Lc: "L \<le> cid" by (simp add: c_def)
        from firsts [OF L(1) Lc] obtain s where s: "s < n" "lab ! s = L"
          "\<forall>q<W * H. lab ! q = L \<longrightarrow> s \<le> q" "\<forall>q. q < s \<longrightarrow> lab ! q < L" by blast
        have 1: "lab' ! s = L" using old [OF s(1)] s(2) by simp
        have 2: "\<forall>q<W * H. lab' ! q = L \<longrightarrow> s \<le> q"
          using orig False s(3) by blast
        have 3: "\<forall>q. q < s \<longrightarrow> lab' ! q < L"
        proof (intro allI impI)
          fix q assume "q < s"
          with s(1) s(4) old [of q] show "lab' ! q < L" by simp
        qed
        from s(1) 1 2 3 show ?thesis using less_Suc_eq by blast
      qed
    qed
    have "scanInv W H data (Suc n) (lab', c)"
      by (rule scanInvI [OF len' cS S3 S4 S5 S6 S7 S8])
    with eq show ?thesis by simp
  qed
qed

lemma labelScan_correct:
  assumes small: "W * H < 2 ^ 31"
  shows "\<exists>lab cnt. labelScan W H data = Some (lab, cnt) \<and> scanInv W H data (W * H) (lab, cnt)"
proof -
  let ?row = "\<lambda>y. forLoop 0 W (\<lambda>x. scanPixel W H data y x)"
  have row: "\<exists>t'. ?row y t = Some t' \<and> scanInv W H data (Suc y * W) t'"
    if y: "y < H" and t: "scanInv W H data (y * W) t" for y t
  proof -
    have "\<exists>t'. forLoop 0 W (\<lambda>x. scanPixel W H data y x) t = Some t' \<and> scanInv W H data (y * W + W) t'"
    proof (rule forLoop_rule [where P = "\<lambda>x. scanInv W H data (y * W + x)"])
      show "scanInv W H data (y * W + 0) t" using t by simp
      show "0 \<le> W" by simp
      fix x s assume x: "x < W" and s: "scanInv W H data (y * W + x) s"
      obtain lab cid where lc: "s = (lab, cid)" by (cases s)
      have n: "y * W + x < W * H" using x y by (rule pixel_row_col(1))
      from scanPixel_inv [OF s [unfolded lc] n small refl]
      show "\<exists>t'. scanPixel W H data y x s = Some t' \<and> scanInv W H data (y * W + Suc x) t'"
        by (simp add: lc)
    qed
    then show ?thesis by (simp add: add.commute)
  qed
  have "\<exists>t. forLoop 0 H ?row (replicate (W * H) 0, 0) = Some t \<and> scanInv W H data (H * W) t"
  proof (rule forLoop_rule [where P = "\<lambda>y. scanInv W H data (y * W)"])
    show "scanInv W H data (0 * W) (replicate (W * H) 0, 0)" using scanInv_init by simp
    show "0 \<le> H" by simp
    fix y t assume "y < H" "scanInv W H data (y * W) t"
    then show "\<exists>t'. ?row y t = Some t' \<and> scanInv W H data (Suc y * W) t'" by (rule row)
  qed
  then show ?thesis by (auto simp: labelScan_def mult.commute)
qed

subsection \<open>Paths and first pixels\<close>

lemma lstep_path:
  assumes "(lstep W H lab L)\<^sup>*\<^sup>* p q" and "p < W * H" and "lab ! p = L"
  shows "\<exists>ps. path4 W H ps \<and> hd ps = p \<and> last ps = q \<and> (\<forall>r\<in>set ps. lab ! r = L)"
  using assms
proof (induction rule: rtranclp_induct)
  case base
  then have "path4 W H [p] \<and> hd [p] = p \<and> last [p] = p \<and> (\<forall>r\<in>set [p]. lab ! r = L)"
    by (simp add: path4_def)
  then show ?case by blast
next
  case (step y z)
  then obtain ps where ps: "path4 W H ps" "hd ps = p" "last ps = y" "\<forall>r\<in>set ps. lab ! r = L"
    by blast
  from step.hyps(2) have yz: "adjacent W H y z" "lab ! z = L" "z < W * H"
    by (simp_all add: lstep_def adjacent_def)
  have "path4 W H (ps @ [z])"
    using ps(1,3) yz by (simp add: path4_def successively_append_iff)
  moreover have "hd (ps @ [z]) = p" using ps(1,2) by (simp add: path4_def)
  moreover have "last (ps @ [z]) = z" by simp
  moreover have "\<forall>r\<in>set (ps @ [z]). lab ! r = L" using ps(4) yz by simp
  ultimately show ?case by blast
qed

lemma path_same_label:
  assumes closed: "\<forall>p q. adjacent W H p q \<and> fgAt data q \<and> lab ! p \<noteq> 0 \<longrightarrow> lab ! q = lab ! p"
    and labelled: "\<forall>p<W * H. fgAt data p \<longrightarrow> lab ! p \<noteq> 0"
    and "successively (adjacent W H) ps" and "\<forall>r\<in>set ps. fgAt data r" and "ps \<noteq> []"
  shows "\<forall>r\<in>set ps. lab ! r = lab ! hd ps"
  using assms(3-)
proof (induction ps)
  case Nil
  then show ?case by simp
next
  case (Cons x xs)
  show ?case
  proof (cases "xs = []")
    case True
    then show ?thesis by simp
  next
    case False
    with Cons.prems(1) have a: "adjacent W H x (hd xs)" and s: "successively (adjacent W H) xs"
      by (simp_all add: successively_Cons)
    from False Cons.prems(2) have fh: "fgAt data (hd xs)" and fx: "fgAt data x" by simp_all
    from a have "x < W * H" by (simp add: adjacent_def)
    with labelled fx have "lab ! x \<noteq> 0" by blast
    with closed a fh have e: "lab ! hd xs = lab ! x" by blast
    from Cons.IH [OF s _ False] Cons.prems(2) have "\<forall>r\<in>set xs. lab ! r = lab ! hd xs" by simp
    with e show ?thesis by simp
  qed
qed

lemma fgStep_same_label:
  assumes closed: "\<forall>p q. adjacent W H p q \<and> fgAt data q \<and> lab ! p \<noteq> 0 \<longrightarrow> lab ! q = lab ! p"
    and labelled: "\<forall>p<W * H. fgAt data p \<longrightarrow> lab ! p \<noteq> 0"
    and "(fgStep W H data)\<^sup>*\<^sup>* q p"
  shows "lab ! q = lab ! p"
  using assms(3)
proof (induction rule: rtranclp_induct)
  case base
  show ?case by simp
next
  case (step y z)
  from step.hyps(2) have a: "adjacent W H y z" "fgAt data y" "fgAt data z" "y < W * H"
    by (simp_all add: fgStep_def adjacent_def)
  with labelled have "lab ! y \<noteq> 0" by blast
  with closed a have "lab ! z = lab ! y" by blast
  with step.IH show ?case by simp
qed

lemma lstep_fgStep:
  assumes fgs: "\<forall>p<W * H. lab ! p \<noteq> 0 \<longrightarrow> fgAt data p" and L: "L \<noteq> 0"
    and "(lstep W H lab L)\<^sup>*\<^sup>* q p"
  shows "(fgStep W H data)\<^sup>*\<^sup>* q p"
  using assms(3)
proof (induction rule: rtranclp_induct)
  case base
  show ?case by simp
next
  case (step y z)
  from step.hyps(2) L fgs have "fgStep W H data y z"
    by (auto simp: lstep_def fgStep_def adjacent_def)
  with step.IH show ?case by (rule rtranclp.rtrancl_into_rtrancl)
qed

lemma firstPixel_label:
  assumes inv: "scanInv W H data (W * H) (lab, cid)"
  shows "firstPixel W H data p = (p < W * H \<and> lab ! p \<noteq> 0 \<and> (\<forall>q<p. lab ! q \<noteq> lab ! p))"
proof (cases "p < W * H")
  case False
  then show ?thesis by (simp add: firstPixel_def)
next
  case True
  note D = scanInvD [OF inv]
  have fg_iff: "fgAt data r = (lab ! r \<noteq> 0)" if "r < W * H" for r
    using D(3) D(4) that by blast
  have conn_iff: "(fgStep W H data)\<^sup>*\<^sup>* q p = (lab ! q = lab ! p)"
    if q: "q < p" and nz: "lab ! p \<noteq> 0" for q
  proof
    assume "(fgStep W H data)\<^sup>*\<^sup>* q p"
    then show "lab ! q = lab ! p" by (rule fgStep_same_label [OF D(5) D(4)])
  next
    assume e: "lab ! q = lab ! p"
    have qb: "q < W * H" using q True by simp
    from D(7) qb True e nz have "(lstep W H lab (lab ! q))\<^sup>*\<^sup>* q p" by simp
    then show "(fgStep W H data)\<^sup>*\<^sup>* q p"
      using D(3) e nz by (intro lstep_fgStep [where L = "lab ! q" and lab = lab]) simp_all
  qed
  show ?thesis
    unfolding firstPixel_def using True fg_iff [OF True] conn_iff by auto
qed

lemma first_labels:
  assumes inv: "scanInv W H data (W * H) (lab, cid)"
  shows "firstPixel W H data p \<Longrightarrow> lab ! p = card {q. q \<le> p \<and> firstPixel W H data q}"
    and "cid = card {q. firstPixel W H data q}"
proof -
  note D = scanInvD [OF inv]
  note fl = firstPixel_label [OF inv]
  have below: "lab ! q' < lab ! q" if "firstPixel W H data q" "q' < q" for q q'
  proof -
    from that(1) have q: "q < W * H" "lab ! q \<noteq> 0" "\<forall>r<q. lab ! r \<noteq> lab ! q"
      by (simp_all add: fl)
    from D(6) q(1) have "lab ! q \<le> cid" by simp
    with D(8) q(2) obtain m where m: "m < W * H" "lab ! m = lab ! q"
      "\<forall>r<W * H. lab ! r = lab ! q \<longrightarrow> m \<le> r" "\<forall>r<m. lab ! r < lab ! q"
      by (metis neq0_conv)
    from m(3) q(1) have "m \<le> q" by simp
    moreover from q(3) m(2) have "\<not> m < q" by auto
    ultimately have "m = q" by simp
    with m(4) that(2) show ?thesis by simp
  qed
  have used: "\<exists>q. firstPixel W H data q \<and> lab ! q = L" if "0 < L" "L \<le> cid" for L
  proof -
    from D(8) that obtain m where m: "m < W * H" "lab ! m = L" "\<forall>r<m. lab ! r < L" by blast
    then have "firstPixel W H data m" using that(1) by (auto simp: fl)
    with m(2) show ?thesis by blast
  qed
  have range: "0 < lab ! q \<and> lab ! q \<le> cid" if "firstPixel W H data q" for q
    using that D(6) by (simp add: fl)
  have inj: "inj_on (\<lambda>q. lab ! q) {q. firstPixel W H data q}"
  proof (rule inj_onI)
    fix a b assume ab: "a \<in> {q. firstPixel W H data q}" "b \<in> {q. firstPixel W H data q}"
      "lab ! a = lab ! b"
    show "a = b"
    proof (rule ccontr)
      assume "a \<noteq> b"
      then have "a < b \<or> b < a" by auto
      then show False using below [of b a] below [of a b] ab by auto
    qed
  qed
  show "cid = card {q. firstPixel W H data q}"
  proof -
    have "(\<lambda>q. lab ! q) ` {q. firstPixel W H data q} = {1..cid}"
    proof (intro equalityI subsetI)
      fix L assume "L \<in> (\<lambda>q. lab ! q) ` {q. firstPixel W H data q}"
      then obtain q where "firstPixel W H data q" "L = lab ! q" by auto
      with range [of q] show "L \<in> {1..cid}" by simp
    next
      fix L assume "L \<in> {1..cid}"
      then have "0 < L" "L \<le> cid" by simp_all
      from used [OF this] show "L \<in> (\<lambda>q. lab ! q) ` {q. firstPixel W H data q}" by auto
    qed
    with card_image [OF inj] show ?thesis by simp
  qed
  show "lab ! p = card {q. q \<le> p \<and> firstPixel W H data q}" if p: "firstPixel W H data p"
  proof -
    let ?S = "{q. q \<le> p \<and> firstPixel W H data q}"
    have inj': "inj_on (\<lambda>q. lab ! q) ?S"
      by (rule inj_on_subset [OF inj]) auto
    have "(\<lambda>q. lab ! q) ` ?S = {1..lab ! p}"
    proof (intro equalityI subsetI)
      fix L assume "L \<in> (\<lambda>q. lab ! q) ` ?S"
      then obtain q where q: "q \<le> p" "firstPixel W H data q" "L = lab ! q" by auto
      have "lab ! q \<le> lab ! p"
      proof (cases "q = p")
        case True then show ?thesis by simp
      next
        case False
        with q(1) have "q < p" by simp
        from below [OF p this] show ?thesis by simp
      qed
      with range [OF q(2)] q(3) show "L \<in> {1..lab ! p}" by simp
    next
      fix L assume "L \<in> {1..lab ! p}"
      then have L: "0 < L" "L \<le> lab ! p" by simp_all
      with range [OF p] have "L \<le> cid" by simp
      from used [OF L(1) this] obtain q where q: "firstPixel W H data q" "lab ! q = L" by blast
      have "q \<le> p"
      proof (rule ccontr)
        assume "\<not> q \<le> p"
        then have "p < q" by simp
        from below [OF q(1) this] q(2) L(2) show False by simp
      qed
      with q show "L \<in> (\<lambda>q. lab ! q) ` ?S" by auto
    qed
    with card_image [OF inj'] show ?thesis by simp
  qed
qed

subsection \<open>Evaluation on the small image\<close>

lemma list_update_numeral: "(x # xs)[numeral v := y] = x # xs[numeral v - 1 := y]"
  by (simp add: numeral_eq_Suc)

lemma replicate_numeral: "replicate (numeral v) x = x # replicate (numeral v - 1) x"
  by (simp add: numeral_eq_Suc)

lemmas eval_defs = labelScan_def forLoop.simps scanPixel_def floodFill.simps visit_def nbs_def
  idx_def toUint32_def toInt32_def fgAt_def channel_def isForegroundJS_def isForeground_def Let_def
  list_update_numeral replicate_numeral

lemma exData_fg: "fgAt exData 0" "\<not> fgAt exData 1" "fgAt exData 2" "fgAt exData 3"
  by (simp_all add: exData_def fgAt_def channel_def isForegroundJS_def isForeground_def Let_def)

lemma exState_size: "g_W exState = 3" "g_H exState = 2"
  by (simp_all add: exState_def initial_def)

lemma ex_labelScan: "labelScan 3 2 exData = Some ([1, 0, 2, 1, 0, 0], 2)"
  by (simp add: eval_defs exData_def)

lemma ex_build:
  "buildComponentMap exData exState = Some (exState\<lparr>g_compIdAt := [1, 0, 2, 1, 0, 0], g_compCount := 2\<rparr>)"
  by (simp add: buildComponentMap_def exState_size ex_labelScan)

lemma buildComponentMap_inv:
  assumes "g_W s * g_H s < 2 ^ 31"
  shows "\<exists>lab cnt. buildComponentMap data s = Some (s\<lparr>g_compIdAt := lab, g_compCount := cnt\<rparr>) \<and>
      scanInv (g_W s) (g_H s) data (g_W s * g_H s) (lab, cnt)"
proof -
  from labelScan_correct [OF assms, of data]
  obtain lab cnt where "labelScan (g_W s) (g_H s) data = Some (lab, cnt)"
    "scanInv (g_W s) (g_H s) data (g_W s * g_H s) (lab, cnt)" by blast
  then have "buildComponentMap data s = Some (s\<lparr>g_compIdAt := lab, g_compCount := cnt\<rparr>) \<and>
      scanInv (g_W s) (g_H s) data (g_W s * g_H s) (lab, cnt)"
    by (simp add: buildComponentMap_def)
  then show ?thesis by blast
qed

lemma same_label_path:
  assumes inv: "scanInv W H data (W * H) (lab, cnt)"
  shows "\<forall>p<W * H. \<forall>q<W * H. lab ! p = lab ! q \<and> lab ! p \<noteq> 0 \<longrightarrow>
         (\<exists>ps. path4 W H ps \<and> hd ps = p \<and> last ps = q \<and> (\<forall>r\<in>set ps. lab ! r = lab ! p))"
proof (intro allI impI, elim conjE)
  note D = scanInvD [OF inv]
  fix p q assume a: "p < W * H" "q < W * H" "lab ! p = lab ! q" "lab ! p \<noteq> 0"
  from D(7) [rule_format, of p q] a
  have c: "(lstep W H lab (lab ! p))\<^sup>*\<^sup>* p q" by simp
  show "\<exists>ps. path4 W H ps \<and> hd ps = p \<and> last ps = q \<and> (\<forall>r\<in>set ps. lab ! r = lab ! p)"
    by (rule lstep_path [OF c a(1) refl])
qed

lemma fg_path_one_label:
  assumes inv: "scanInv W H data (W * H) (lab, cnt)"
  shows "\<forall>ps. path4 W H ps \<and> (\<forall>r\<in>set ps. fgAt data r) \<longrightarrow>
         (\<forall>a\<in>set ps. \<forall>b\<in>set ps. lab ! a = lab ! b)"
proof (intro allI impI ballI, elim conjE)
  note D = scanInvD [OF inv]
  fix ps a b
  assume p: "path4 W H ps" and f: "\<forall>r\<in>set ps. fgAt data r"
    and ab: "a \<in> set ps" "b \<in> set ps"
  from p have s: "successively (adjacent W H) ps" and ne: "ps \<noteq> []"
    by (simp_all add: path4_def)
  note P = path_same_label [OF D(5) D(4) s f ne]
  from P ab have "lab ! a = lab ! hd ps" "lab ! b = lab ! hd ps" by blast+
  then show "lab ! a = lab ! b" by simp
qed

lemma fgAt_pixel:
  assumes "length data = 4 * N" and "p < N"
  shows "fgAt data p =
     isForeground (unat (data ! (4 * p))) (unat (data ! (4 * p + 1))) (unat (data ! (4 * p + 2)))"
  using assms by (simp add: fgAt_def channel_def isForegroundJS_def Let_def mult.commute)

lemma label_iff_connected:
  assumes inv: "scanInv W H data (W * H) (lab, cnt)"
  shows "\<forall>p<W * H. \<forall>q<W * H. fgAt data p \<and> fgAt data q \<longrightarrow>
         (lab ! p = lab ! q) = (fgStep W H data)\<^sup>*\<^sup>* p q"
proof (intro allI impI, elim conjE)
  note D = scanInvD [OF inv]
  fix p q assume b: "p < W * H" "q < W * H" and f: "fgAt data p" "fgAt data q"
  from D(4) b(1) f(1) have nz: "lab ! p \<noteq> 0" by blast
  show "(lab ! p = lab ! q) = (fgStep W H data)\<^sup>*\<^sup>* p q"
  proof
    assume e: "lab ! p = lab ! q"
    from D(7) b e nz have "(lstep W H lab (lab ! p))\<^sup>*\<^sup>* p q" by simp
    then show "(fgStep W H data)\<^sup>*\<^sup>* p q"
      by (rule lstep_fgStep [OF D(3) nz])
  next
    assume "(fgStep W H data)\<^sup>*\<^sup>* p q"
    then show "lab ! p = lab ! q" by (rule fgStep_same_label [OF D(5) D(4)])
  qed
qed

lemma label_iff_fg:
  assumes inv: "scanInv W H data (W * H) (lab, cnt)"
  shows "\<forall>p<W * H. (lab ! p \<noteq> 0) = fgAt data p"
  using scanInvD(3) [OF inv] scanInvD(4) [OF inv] by blast

lemma component_label:
  assumes inv: "scanInv W H data (W * H) (lab, cid)"
    and "firstPixel W H data p" and "(fgStep W H data)\<^sup>*\<^sup>* p r"
  shows "lab ! r = card {q. q \<le> p \<and> firstPixel W H data q}"
proof -
  note D = scanInvD [OF inv]
  from assms(3) have "lab ! p = lab ! r" by (rule fgStep_same_label [OF D(5) D(4)])
  with first_labels(1) [OF inv assms(2)] show ?thesis by simp
qed

subsection \<open>C1: labels are the 4-connected components\<close>

text \<open>
  C1. For every buffer of fewer than \<open>2 ^ 31\<close> pixels (beyond that the 32-bit conversions
  of lines 107, 113 and 135 are no longer the identity), \<^verbatim>\<open>buildComponentMap\<close> returns and
  the label array partitions the foreground into its 4-connected components: a pixel
  carries a non-zero label exactly when it is foreground, and two foreground pixels carry
  the same label exactly when a chain of adjacent foreground pixels joins them. Two
  positions with the same non-zero label are joined by a 4-connected path all of whose
  positions carry that label, and all positions of a 4-connected path of foreground pixels
  carry one and the same label, so no such path holds two different non-zero labels.
\<close>

theorem labels_are_components:
  assumes "g_W s * g_H s < 2 ^ 31"
  shows "\<exists>s'. buildComponentMap data s = Some s' \<and>
      (\<forall>p<g_W s * g_H s. (g_compIdAt s' ! p \<noteq> 0) = fgAt data p) \<and>
      (\<forall>p<g_W s * g_H s. \<forall>q<g_W s * g_H s. fgAt data p \<and> fgAt data q \<longrightarrow>
         (g_compIdAt s' ! p = g_compIdAt s' ! q) = (fgStep (g_W s) (g_H s) data)\<^sup>*\<^sup>* p q) \<and>
      (\<forall>p<g_W s * g_H s. \<forall>q<g_W s * g_H s.
         g_compIdAt s' ! p = g_compIdAt s' ! q \<and> g_compIdAt s' ! p \<noteq> 0 \<longrightarrow>
         (\<exists>ps. path4 (g_W s) (g_H s) ps \<and> hd ps = p \<and> last ps = q \<and>
               (\<forall>r\<in>set ps. g_compIdAt s' ! r = g_compIdAt s' ! p))) \<and>
      (\<forall>ps. path4 (g_W s) (g_H s) ps \<and> (\<forall>r\<in>set ps. fgAt data r) \<longrightarrow>
         (\<forall>a\<in>set ps. \<forall>b\<in>set ps. g_compIdAt s' ! a = g_compIdAt s' ! b))"
proof -
  from buildComponentMap_inv [OF assms, of data]
  obtain lab cnt where b: "buildComponentMap data s = Some (s\<lparr>g_compIdAt := lab, g_compCount := cnt\<rparr>)"
    and inv: "scanInv (g_W s) (g_H s) data (g_W s * g_H s) (lab, cnt)" by blast
  let ?s = "s\<lparr>g_compIdAt := lab, g_compCount := cnt\<rparr>"
  have l: "g_compIdAt ?s = lab" by simp
  show ?thesis
  proof (intro exI conjI)
    show "buildComponentMap data s = Some ?s" by (rule b)
    show "\<forall>p<g_W s * g_H s. (g_compIdAt ?s ! p \<noteq> 0) = fgAt data p"
      unfolding l by (rule label_iff_fg [OF inv])
    show "\<forall>p<g_W s * g_H s. \<forall>q<g_W s * g_H s. fgAt data p \<and> fgAt data q \<longrightarrow>
         (g_compIdAt ?s ! p = g_compIdAt ?s ! q) = (fgStep (g_W s) (g_H s) data)\<^sup>*\<^sup>* p q"
      unfolding l by (rule label_iff_connected [OF inv])
    show "\<forall>p<g_W s * g_H s. \<forall>q<g_W s * g_H s.
         g_compIdAt ?s ! p = g_compIdAt ?s ! q \<and> g_compIdAt ?s ! p \<noteq> 0 \<longrightarrow>
         (\<exists>ps. path4 (g_W s) (g_H s) ps \<and> hd ps = p \<and> last ps = q \<and>
               (\<forall>r\<in>set ps. g_compIdAt ?s ! r = g_compIdAt ?s ! p))"
      unfolding l by (rule same_label_path [OF inv])
    show "\<forall>ps. path4 (g_W s) (g_H s) ps \<and> (\<forall>r\<in>set ps. fgAt data r) \<longrightarrow>
         (\<forall>a\<in>set ps. \<forall>b\<in>set ps. g_compIdAt ?s ! a = g_compIdAt ?s ! b)"
      unfolding l by (rule fg_path_one_label [OF inv])
  qed
qed

theorem labels_are_components_witness:
  "g_W exState * g_H exState < 2 ^ 31 \<and>
   (\<exists>s'. buildComponentMap exData exState = Some s' \<and>
      g_compIdAt s' ! 0 = g_compIdAt s' ! 3 \<and> g_compIdAt s' ! 0 \<noteq> 0 \<and>
      (\<exists>ps. path4 3 2 ps \<and> hd ps = 0 \<and> last ps = 3 \<and>
            (\<forall>r\<in>set ps. g_compIdAt s' ! r = g_compIdAt s' ! 0)) \<and>
      path4 3 2 [0, 3] \<and> fgAt exData 0 \<and> fgAt exData 3 \<and>
      (fgStep 3 2 exData)\<^sup>*\<^sup>* 0 3 \<and>
      fgAt exData 2 \<and> g_compIdAt s' ! 0 \<noteq> g_compIdAt s' ! 2 \<and> \<not> (fgStep 3 2 exData)\<^sup>*\<^sup>* 0 2 \<and>
      \<not> fgAt exData 1 \<and> g_compIdAt s' ! 1 = 0)"
proof -
  have h: "g_W exState * g_H exState < 2 ^ 31" by (simp add: exState_size)
  from labels_are_components [OF h, of exData]
  obtain s' where s': "buildComponentMap exData exState = Some s'"
    and Z: "\<forall>p<g_W exState * g_H exState. (g_compIdAt s' ! p \<noteq> 0) = fgAt exData p"
    and C: "\<forall>p<g_W exState * g_H exState. \<forall>q<g_W exState * g_H exState. fgAt exData p \<and> fgAt exData q \<longrightarrow>
         (g_compIdAt s' ! p = g_compIdAt s' ! q) = (fgStep (g_W exState) (g_H exState) exData)\<^sup>*\<^sup>* p q"
    and P: "\<forall>p<g_W exState * g_H exState. \<forall>q<g_W exState * g_H exState.
         g_compIdAt s' ! p = g_compIdAt s' ! q \<and> g_compIdAt s' ! p \<noteq> 0 \<longrightarrow>
         (\<exists>ps. path4 (g_W exState) (g_H exState) ps \<and> hd ps = p \<and> last ps = q \<and>
               (\<forall>r\<in>set ps. g_compIdAt s' ! r = g_compIdAt s' ! p))"
    by blast
  from s' have l: "g_compIdAt s' = [1, 0, 2, 1, 0, 0]" by (auto simp: ex_build)
  have e: "g_compIdAt s' ! 0 = g_compIdAt s' ! 3" "g_compIdAt s' ! 0 \<noteq> 0"
    "g_compIdAt s' ! 0 \<noteq> g_compIdAt s' ! 2" "g_compIdAt s' ! 1 = 0" by (simp_all add: l)
  from P [rule_format, of 0 3] e
  have p: "\<exists>ps. path4 3 2 ps \<and> hd ps = 0 \<and> last ps = 3 \<and> (\<forall>r\<in>set ps. g_compIdAt s' ! r = g_compIdAt s' ! 0)"
    by (simp add: exState_size)
  from C [rule_format, of 0 3] e exData_fg
  have c1: "(fgStep 3 2 exData)\<^sup>*\<^sup>* 0 3" by (simp add: exState_size)
  from C [rule_format, of 0 2] e exData_fg
  have c2: "\<not> (fgStep 3 2 exData)\<^sup>*\<^sup>* 0 2" by (simp add: exState_size)
  from Z [rule_format, of 1] e
  have z: "\<not> fgAt exData 1" by (simp add: exState_size)
  have "path4 3 2 [0, 3]" by (simp add: path4_def adjacent_def)
  with h s' e p c1 c2 z exData_fg show ?thesis by blast
qed

subsection \<open>C2: label 0 exactly on the background\<close>

text \<open>
  C2. For every buffer of fewer than \<open>2 ^ 31\<close> pixels and every pixel position \<open>p\<close>, the
  label array that \<^verbatim>\<open>buildComponentMap\<close> produces has \<open>compIdAt[p] = 0\<close> if and only if the
  foreground classifier rejects the pixel at \<open>p\<close>: every foreground pixel receives a
  positive label and every background pixel keeps label 0. For a buffer of \<open>4 * W * H\<close>
  bytes the classifier's verdict is \<open>isForeground\<close> on the three colour channels at
  \<open>4 * p\<close>.
\<close>

theorem labels_zero_iff_background:
  assumes "g_W s * g_H s < 2 ^ 31"
  shows "\<exists>s'. buildComponentMap data s = Some s' \<and>
      length (g_compIdAt s') = g_W s * g_H s \<and>
      (\<forall>p<g_W s * g_H s. (g_compIdAt s' ! p = 0) = (\<not> fgAt data p)) \<and>
      (length data = 4 * (g_W s * g_H s) \<longrightarrow>
         (\<forall>p<g_W s * g_H s. (g_compIdAt s' ! p = 0) =
            (\<not> isForeground (unat (data ! (4 * p))) (unat (data ! (4 * p + 1)))
                  (unat (data ! (4 * p + 2))))))"
proof -
  from buildComponentMap_inv [OF assms, of data]
  obtain lab cnt where b: "buildComponentMap data s = Some (s\<lparr>g_compIdAt := lab, g_compCount := cnt\<rparr>)"
    and inv: "scanInv (g_W s) (g_H s) data (g_W s * g_H s) (lab, cnt)" by blast
  note D = scanInvD [OF inv]
  have z: "\<forall>p<g_W s * g_H s. (lab ! p = 0) = (\<not> fgAt data p)"
    using D(3) D(4) by blast
  have w: "length data = 4 * (g_W s * g_H s) \<longrightarrow>
         (\<forall>p<g_W s * g_H s. (lab ! p = 0) =
            (\<not> isForeground (unat (data ! (4 * p))) (unat (data ! (4 * p + 1)))
                  (unat (data ! (4 * p + 2)))))"
    using z by (simp add: fgAt_pixel)
  from b D(1) z w show ?thesis by simp
qed

theorem labels_zero_iff_background_witness:
  "g_W exState * g_H exState < 2 ^ 31 \<and> length exData = 4 * (g_W exState * g_H exState) \<and>
   (\<exists>s'. buildComponentMap exData exState = Some s' \<and> length (g_compIdAt s') = 6 \<and>
      g_compIdAt s' ! 0 \<noteq> 0 \<and> g_compIdAt s' ! 1 = 0 \<and>
      isForeground (unat (exData ! (4 * 0))) (unat (exData ! (4 * 0 + 1))) (unat (exData ! (4 * 0 + 2))) \<and>
      \<not> isForeground (unat (exData ! (4 * 1))) (unat (exData ! (4 * 1 + 1))) (unat (exData ! (4 * 1 + 2))))"
proof -
  have h: "g_W exState * g_H exState < 2 ^ 31" by (simp add: exState_size)
  have l: "length exData = 4 * (g_W exState * g_H exState)" by (simp add: exState_size exData_def)
  from labels_zero_iff_background [OF h, of exData]
  obtain s' where s': "buildComponentMap exData exState = Some s'"
    "length (g_compIdAt s') = g_W exState * g_H exState"
    "\<forall>p<g_W exState * g_H exState. (g_compIdAt s' ! p = 0) = (\<not> fgAt exData p)"
    "length exData = 4 * (g_W exState * g_H exState) \<longrightarrow>
       (\<forall>p<g_W exState * g_H exState. (g_compIdAt s' ! p = 0) =
          (\<not> isForeground (unat (exData ! (4 * p))) (unat (exData ! (4 * p + 1)))
                (unat (exData ! (4 * p + 2)))))" by blast
  have n: "g_W exState * g_H exState = 6" by (simp add: exState_size)
  from s'(3) [rule_format, of 0] s'(3) [rule_format, of 1]
  have a: "g_compIdAt s' ! 0 \<noteq> 0" "g_compIdAt s' ! 1 = 0"
    using exData_fg by (simp_all add: n)
  from s'(4) [rule_format, OF l, of 0] s'(4) [rule_format, OF l, of 1] a
  have "isForeground (unat (exData ! (4 * 0))) (unat (exData ! (4 * 0 + 1))) (unat (exData ! (4 * 0 + 2)))"
    "\<not> isForeground (unat (exData ! (4 * 1))) (unat (exData ! (4 * 1 + 1))) (unat (exData ! (4 * 1 + 2)))"
    by (simp_all add: n)
  moreover have "length (g_compIdAt s') = 6" using s'(2) n by simp
  ultimately show ?thesis using h l s'(1) a by blast
qed

subsection \<open>C3: determinism and row-major label ids\<close>

text \<open>
  C3. For every buffer of fewer than \<open>2 ^ 31\<close> pixels, the label array depends on
  \<^verbatim>\<open>W\<close>, \<^verbatim>\<open>H\<close> and the buffer only: a run from any other state with the same \<^verbatim>\<open>W\<close> and
  \<^verbatim>\<open>H\<close> gives the same array, and a second run right after the first changes nothing.
  Every pixel of the component whose first pixel is \<open>p\<close> receives as label the number of
  first pixels up to and including \<open>p\<close> in row-major order, so the component whose first
  pixel comes k-th receives label k; no label exceeds \<^verbatim>\<open>compCount\<close>, which is the number of
  components.
\<close>

theorem label_ids_row_major:
  assumes "g_W s * g_H s < 2 ^ 31"
  shows "\<exists>s'. buildComponentMap data s = Some s' \<and>
      (\<forall>t. g_W t = g_W s \<and> g_H t = g_H s \<longrightarrow>
           map_option g_compIdAt (buildComponentMap data t) = Some (g_compIdAt s')) \<and>
      buildComponentMap data s' = Some s' \<and>
      (\<forall>p r. firstPixel (g_W s) (g_H s) data p \<and> (fgStep (g_W s) (g_H s) data)\<^sup>*\<^sup>* p r \<longrightarrow>
           g_compIdAt s' ! r = card {q. q \<le> p \<and> firstPixel (g_W s) (g_H s) data q}) \<and>
      (\<forall>p. firstPixel (g_W s) (g_H s) data p \<longrightarrow>
           g_compIdAt s' ! p = card {q. q \<le> p \<and> firstPixel (g_W s) (g_H s) data q}) \<and>
      (\<forall>p<g_W s * g_H s. g_compIdAt s' ! p \<le> g_compCount s') \<and>
      g_compCount s' = card {q. firstPixel (g_W s) (g_H s) data q}"
proof -
  from labelScan_correct [OF assms, of data]
  obtain lab cnt where ls: "labelScan (g_W s) (g_H s) data = Some (lab, cnt)"
    and inv: "scanInv (g_W s) (g_H s) data (g_W s * g_H s) (lab, cnt)" by blast
  let ?s = "s\<lparr>g_compIdAt := lab, g_compCount := cnt\<rparr>"
  note F = first_labels [OF inv]
  show ?thesis
  proof (intro exI conjI allI impI)
    show "buildComponentMap data s = Some ?s"
      by (simp add: buildComponentMap_def ls)
    show "map_option g_compIdAt (buildComponentMap data t) = Some (g_compIdAt ?s)"
      if "g_W t = g_W s \<and> g_H t = g_H s" for t
      using that by (simp add: buildComponentMap_def ls)
    show "buildComponentMap data ?s = Some ?s"
      by (simp add: buildComponentMap_def ls)
    show "g_compIdAt ?s ! r = card {q. q \<le> p \<and> firstPixel (g_W s) (g_H s) data q}"
      if "firstPixel (g_W s) (g_H s) data p \<and> (fgStep (g_W s) (g_H s) data)\<^sup>*\<^sup>* p r" for p r
      using component_label [OF inv, of p r] that by simp
    show "g_compIdAt ?s ! p = card {q. q \<le> p \<and> firstPixel (g_W s) (g_H s) data q}"
      if "firstPixel (g_W s) (g_H s) data p" for p
      using F(1) [OF that] by simp
    show "g_compIdAt ?s ! p \<le> g_compCount ?s" if "p < g_W s * g_H s" for p
      using scanInvD(6) [OF inv] that by simp
    show "g_compCount ?s = card {q. firstPixel (g_W s) (g_H s) data q}"
      using F(2) by simp
  qed
qed

theorem label_ids_row_major_witness:
  "g_W exState * g_H exState < 2 ^ 31 \<and> firstPixel 3 2 exData 0 \<and> firstPixel 3 2 exData 2 \<and>
   (fgStep 3 2 exData)\<^sup>*\<^sup>* 0 3 \<and>
   (\<exists>s'. buildComponentMap exData exState = Some s' \<and>
      buildComponentMap exData s' = Some s' \<and>
      g_compIdAt s' ! 3 = card {q. q \<le> 0 \<and> firstPixel 3 2 exData q} \<and>
      g_compIdAt s' ! 3 = 1 \<and>
      g_compIdAt s' ! 2 = card {q. q \<le> 2 \<and> firstPixel 3 2 exData q} \<and>
      g_compIdAt s' ! 2 = 2 \<and>
      g_compCount s' = card {q. firstPixel 3 2 exData q})"
proof -
  have h: "g_W exState * g_H exState < 2 ^ 31" by (simp add: exState_size)
  have "(3::nat) * 2 < 2 ^ 31" by simp
  from labelScan_correct [OF this, of exData]
  have inv: "scanInv 3 2 exData (3 * 2) ([1, 0, 2, 1, 0, 0], 2)" by (simp add: ex_labelScan)
  have "\<forall>q<2. [1, 0, 2, 1, 0, 0] ! q \<noteq> [1, 0, 2, 1, 0, 0::nat] ! 2"
    by (simp add: less_Suc_eq numeral_2_eq_2)
  then have f: "firstPixel 3 2 exData 2"
    by (simp add: firstPixel_label [OF inv])
  have f0: "firstPixel 3 2 exData 0"
    by (simp add: firstPixel_label [OF inv])
  have "fgStep 3 2 exData 0 3"
    using exData_fg by (simp add: fgStep_def adjacent_def)
  then have c: "(fgStep 3 2 exData)\<^sup>*\<^sup>* 0 3" by (rule r_into_rtranclp)
  from label_ids_row_major [OF h, of exData]
  obtain s' where s': "buildComponentMap exData exState = Some s'"
    "buildComponentMap exData s' = Some s'"
    "\<forall>p r. firstPixel (g_W exState) (g_H exState) exData p \<and>
         (fgStep (g_W exState) (g_H exState) exData)\<^sup>*\<^sup>* p r \<longrightarrow>
       g_compIdAt s' ! r = card {q. q \<le> p \<and> firstPixel (g_W exState) (g_H exState) exData q}"
    "\<forall>p. firstPixel (g_W exState) (g_H exState) exData p \<longrightarrow>
       g_compIdAt s' ! p = card {q. q \<le> p \<and> firstPixel (g_W exState) (g_H exState) exData q}"
    "g_compCount s' = card {q. firstPixel (g_W exState) (g_H exState) exData q}"
    by blast
  from s'(1) have l: "g_compIdAt s' = [1, 0, 2, 1, 0, 0]" by (auto simp: ex_build)
  from s'(3) [rule_format, of 0 3] f0 c
  have c3: "g_compIdAt s' ! 3 = card {q. q \<le> 0 \<and> firstPixel 3 2 exData q}"
    by (simp add: exState_size)
  from s'(4) [rule_format, of 2] f
  have c2: "g_compIdAt s' ! 2 = card {q. q \<le> 2 \<and> firstPixel 3 2 exData q}"
    by (simp add: exState_size)
  have v: "g_compIdAt s' ! 2 = 2" "g_compIdAt s' ! 3 = 1" by (simp_all add: l)
  from h f f0 c s'(1,2) c3 c2 v s'(5) show ?thesis by (simp add: exState_size)
qed

subsection \<open>The compositor loop\<close>

lemma recolor_nth:
  assumes len: "length out = 4 * N" and p: "p < N" and n: "n < N" and k: "k < 4"
  shows "recolor lab ids c out n ! (4 * p + k) =
     (if p = n \<and> n < length lab \<and> lab ! n \<in> set ids
      then (if k = 3 then 255 else byteAt c (4 * p + k)) else out ! (4 * p + k))"
proof -
  from k have "k = 0 \<or> k = 1 \<or> k = 2 \<or> k = 3" by auto
  then show ?thesis
    using len p n
    by (elim disjE) (auto simp: recolor_def Let_def nth_list_update mult.commute)
qed

lemma recolor_length: "length (recolor lab ids c out n) = length out"
  by (simp add: recolor_def Let_def)

lemma recolor_fold:
  assumes len: "length out = 4 * N" and n: "n \<le> N"
  shows "length (foldl (recolor lab ids c) out [0..<n]) = 4 * N \<and>
     (\<forall>p<N. \<forall>k<4. foldl (recolor lab ids c) out [0..<n] ! (4 * p + k) =
        (if p < n \<and> p < length lab \<and> lab ! p \<in> set ids
         then (if k = 3 then 255 else byteAt c (4 * p + k)) else out ! (4 * p + k)))"
  using n
proof (induction n)
  case 0
  then show ?case by (simp add: len)
next
  case (Suc n)
  let ?o = "foldl (recolor lab ids c) out [0..<n]"
  from Suc have IH: "length ?o = 4 * N"
    "\<And>p k. p < N \<Longrightarrow> k < (4::nat) \<Longrightarrow> ?o ! (4 * p + k) =
        (if p < n \<and> p < length lab \<and> lab ! p \<in> set ids
         then (if k = 3 then 255 else byteAt c (4 * p + k)) else out ! (4 * p + k))"
    by simp_all
  have n: "n < N" using Suc.prems by simp
  have f: "foldl (recolor lab ids c) out [0..<Suc n] = recolor lab ids c ?o n" by simp
  show ?case
    unfolding f
  proof (intro conjI allI impI)
    show "length (recolor lab ids c ?o n) = 4 * N" by (simp add: recolor_length IH(1))
    fix p and k :: nat assume pk: "p < N" "k < 4"
    show "recolor lab ids c ?o n ! (4 * p + k) =
        (if p < Suc n \<and> p < length lab \<and> lab ! p \<in> set ids
         then (if k = 3 then 255 else byteAt c (4 * p + k)) else out ! (4 * p + k))"
      unfolding recolor_nth [OF IH(1) pk(1) n pk(2)] IH(2) [OF pk]
      by (auto simp: less_Suc_eq)
  qed
qed

lemma redraw_canvas:
  assumes "g_hoverItemKey s = Some k" "k \<noteq> []" "g_itemKeyToComps s k = Some comps" "comps \<noteq> []"
  shows "g_canvas (redraw s) =
     foldl (recolor (g_compIdAt s) comps (g_colorData s)) (g_greyData s) [0..<g_W s * g_H s]"
  using assms by (simp add: redraw_def Let_def)

lemma redraw_pixels:
  assumes "length (g_greyData s) = 4 * (g_W s * g_H s)"
    and "length (g_colorData s) = 4 * (g_W s * g_H s)"
    and "length (g_compIdAt s) = g_W s * g_H s"
    and sel: "g_hoverItemKey s = Some k" "k \<noteq> []" "g_itemKeyToComps s k = Some comps" "comps \<noteq> []"
    and p: "p < g_W s * g_H s"
  shows "(g_compIdAt s ! p \<in> set comps \<longrightarrow>
             g_canvas (redraw s) ! (4 * p) = g_colorData s ! (4 * p) \<and>
             g_canvas (redraw s) ! (4 * p + 1) = g_colorData s ! (4 * p + 1) \<and>
             g_canvas (redraw s) ! (4 * p + 2) = g_colorData s ! (4 * p + 2) \<and>
             g_canvas (redraw s) ! (4 * p + 3) = 255) \<and>
         (g_compIdAt s ! p \<notin> set comps \<longrightarrow>
             (\<forall>j<4. g_canvas (redraw s) ! (4 * p + j) = g_greyData s ! (4 * p + j)))"
proof -
  let ?N = "g_W s * g_H s"
  from sel have c: "g_canvas (redraw s) =
      foldl (recolor (g_compIdAt s) comps (g_colorData s)) (g_greyData s) [0..<?N]"
    by (simp add: redraw_canvas)
  from recolor_fold [OF assms(1) le_refl, of "g_compIdAt s" comps "g_colorData s"]
  have R: "\<And>j. j < 4 \<Longrightarrow> g_canvas (redraw s) ! (4 * p + j) =
      (if g_compIdAt s ! p \<in> set comps
       then (if j = 3 then 255 else byteAt (g_colorData s) (4 * p + j))
       else g_greyData s ! (4 * p + j))"
    using p assms(3) unfolding c by simp
  have b: "byteAt (g_colorData s) (4 * p + j) = g_colorData s ! (4 * p + j)" if "j < 4" for j
    using that p assms(2) by (simp add: byteAt_def)
  have A: "g_compIdAt s ! p \<in> set comps \<longrightarrow>
             g_canvas (redraw s) ! (4 * p) = g_colorData s ! (4 * p) \<and>
             g_canvas (redraw s) ! (4 * p + 1) = g_colorData s ! (4 * p + 1) \<and>
             g_canvas (redraw s) ! (4 * p + 2) = g_colorData s ! (4 * p + 2) \<and>
             g_canvas (redraw s) ! (4 * p + 3) = 255"
    using R [of 0] R [of 1] R [of 2] R [of 3] b [of 0] b [of 1] b [of 2] by simp
  have B: "g_compIdAt s ! p \<notin> set comps \<longrightarrow>
             (\<forall>j<4. g_canvas (redraw s) ! (4 * p + j) = g_greyData s ! (4 * p + j))"
    using R by simp
  from A B show ?thesis by (rule conjI)
qed

subsection \<open>C4: the compositor\<close>

text \<open>
  C4. For base and overlay buffers of \<open>4 * W * H\<close> bytes and a label array of \<open>W * H\<close>
  entries: when there is no active selection (\<^verbatim>\<open>hoverItemKey\<close> is \<^verbatim>\<open>null\<close>, or empty, which
  \<^verbatim>\<open>!hoverItemKey\<close> treats alike) the canvas holds the base buffer unchanged; when the
  active selection is a key with a non-empty label set, then at every pixel position
  \<open>p < W * H\<close> whose label is in that set the canvas holds the RGB of the overlay buffer
  and alpha 255, and at every other position all four channels of the base buffer.
\<close>

theorem redraw_spec:
  assumes "length (g_greyData s) = 4 * (g_W s * g_H s)"
    and "length (g_colorData s) = 4 * (g_W s * g_H s)"
    and "length (g_compIdAt s) = g_W s * g_H s"
  shows "(g_hoverItemKey s = None \<or> g_hoverItemKey s = Some [] \<longrightarrow>
            g_canvas (redraw s) = g_greyData s) \<and>
    (\<forall>k comps. g_hoverItemKey s = Some k \<and> k \<noteq> [] \<and>
         g_itemKeyToComps s k = Some comps \<and> comps \<noteq> [] \<longrightarrow>
       (\<forall>p<g_W s * g_H s.
          (g_compIdAt s ! p \<in> set comps \<longrightarrow>
             g_canvas (redraw s) ! (4 * p) = g_colorData s ! (4 * p) \<and>
             g_canvas (redraw s) ! (4 * p + 1) = g_colorData s ! (4 * p + 1) \<and>
             g_canvas (redraw s) ! (4 * p + 2) = g_colorData s ! (4 * p + 2) \<and>
             g_canvas (redraw s) ! (4 * p + 3) = 255) \<and>
          (g_compIdAt s ! p \<notin> set comps \<longrightarrow>
             (\<forall>j<4. g_canvas (redraw s) ! (4 * p + j) = g_greyData s ! (4 * p + j)))))"
proof (rule conjI)
  show "g_hoverItemKey s = None \<or> g_hoverItemKey s = Some [] \<longrightarrow> g_canvas (redraw s) = g_greyData s"
    by (auto simp: redraw_def Let_def)
next
  show "\<forall>k comps. g_hoverItemKey s = Some k \<and> k \<noteq> [] \<and>
         g_itemKeyToComps s k = Some comps \<and> comps \<noteq> [] \<longrightarrow>
       (\<forall>p<g_W s * g_H s.
          (g_compIdAt s ! p \<in> set comps \<longrightarrow>
             g_canvas (redraw s) ! (4 * p) = g_colorData s ! (4 * p) \<and>
             g_canvas (redraw s) ! (4 * p + 1) = g_colorData s ! (4 * p + 1) \<and>
             g_canvas (redraw s) ! (4 * p + 2) = g_colorData s ! (4 * p + 2) \<and>
             g_canvas (redraw s) ! (4 * p + 3) = 255) \<and>
          (g_compIdAt s ! p \<notin> set comps \<longrightarrow>
             (\<forall>j<4. g_canvas (redraw s) ! (4 * p + j) = g_greyData s ! (4 * p + j))))"
  proof (intro allI impI)
    fix k comps p
    assume sel: "g_hoverItemKey s = Some k \<and> k \<noteq> [] \<and> g_itemKeyToComps s k = Some comps \<and> comps \<noteq> []"
      and p: "p < g_W s * g_H s"
    from sel have s: "g_hoverItemKey s = Some k" "k \<noteq> []" "g_itemKeyToComps s k = Some comps"
      "comps \<noteq> []" by simp_all
    show "(g_compIdAt s ! p \<in> set comps \<longrightarrow>
             g_canvas (redraw s) ! (4 * p) = g_colorData s ! (4 * p) \<and>
             g_canvas (redraw s) ! (4 * p + 1) = g_colorData s ! (4 * p + 1) \<and>
             g_canvas (redraw s) ! (4 * p + 2) = g_colorData s ! (4 * p + 2) \<and>
             g_canvas (redraw s) ! (4 * p + 3) = 255) \<and>
          (g_compIdAt s ! p \<notin> set comps \<longrightarrow>
             (\<forall>j<4. g_canvas (redraw s) ! (4 * p + j) = g_greyData s ! (4 * p + j)))"
      by (rule redraw_pixels [OF assms s p])
  qed
qed

theorem redraw_spec_witness:
  "length (g_greyData (exScene\<lparr>g_hoverItemKey := Some ''skis''\<rparr>)) = 4 * (3 * 1) \<and>
   length (g_colorData (exScene\<lparr>g_hoverItemKey := Some ''skis''\<rparr>)) = 4 * (3 * 1) \<and>
   length (g_compIdAt (exScene\<lparr>g_hoverItemKey := Some ''skis''\<rparr>)) = 3 * 1 \<and>
   g_itemKeyToComps exScene ''skis'' = Some [1, 2] \<and>
   g_compIdAt exScene ! 2 \<in> set [1, 2] \<and> g_compIdAt exScene ! 1 \<notin> set [1, 2] \<and>
   g_canvas (redraw (exScene\<lparr>g_hoverItemKey := Some ''skis''\<rparr>)) ! (4 * 2) = exColor ! (4 * 2) \<and>
   g_canvas (redraw (exScene\<lparr>g_hoverItemKey := Some ''skis''\<rparr>)) ! (4 * 2 + 3) = 255 \<and>
   g_canvas (redraw (exScene\<lparr>g_hoverItemKey := Some ''skis''\<rparr>)) ! (4 * 1 + 0) = exGrey ! (4 * 1 + 0) \<and>
   g_canvas (redraw exScene) = exGrey"
proof -
  let ?s = "exScene\<lparr>g_hoverItemKey := Some ''skis''\<rparr>"
  have l: "length (g_greyData ?s) = 4 * (g_W ?s * g_H ?s)"
    "length (g_colorData ?s) = 4 * (g_W ?s * g_H ?s)"
    "length (g_compIdAt ?s) = g_W ?s * g_H ?s"
    by (simp_all add: exScene_def exGrey_def exColor_def)
  have l0: "length (g_greyData exScene) = 4 * (g_W exScene * g_H exScene)"
    "length (g_colorData exScene) = 4 * (g_W exScene * g_H exScene)"
    "length (g_compIdAt exScene) = g_W exScene * g_H exScene"
    by (simp_all add: exScene_def exGrey_def exColor_def)
  have sel: "g_hoverItemKey ?s = Some ''skis'' \<and> ''skis'' \<noteq> [] \<and>
      g_itemKeyToComps ?s ''skis'' = Some [1, 2] \<and> [1, 2::nat] \<noteq> []"
    by (simp add: exScene_def)
  note T = redraw_spec [OF l, THEN conjunct2, rule_format, OF sel]
  have in2: "g_compIdAt ?s ! 2 \<in> set [1, 2]" and out1: "g_compIdAt ?s ! 1 \<notin> set [1, 2]"
    by (simp_all add: exScene_def)
  have p2: "2 < g_W ?s * g_H ?s" and p1: "1 < g_W ?s * g_H ?s" by (simp_all add: exScene_def)
  from T [OF p2, THEN conjunct1, rule_format, OF in2]
  have a: "g_canvas (redraw ?s) ! (4 * 2) = exColor ! (4 * 2)"
    "g_canvas (redraw ?s) ! (4 * 2 + 3) = 255"
    by (simp_all add: exScene_def)
  from T [OF p1, THEN conjunct2, rule_format, OF out1, of 0]
  have b: "g_canvas (redraw ?s) ! (4 * 1 + 0) = exGrey ! (4 * 1 + 0)"
    by (simp add: exScene_def)
  from redraw_spec [OF l0, THEN conjunct1]
  have c: "g_canvas (redraw exScene) = exGrey" by (simp add: exScene_def)
  from a b c show ?thesis
    by (simp add: exScene_def exGrey_def exColor_def)
qed

subsection \<open>C10: a selection without labels\<close>

text \<open>
  C10. If the active selection is a key whose entry in \<^verbatim>\<open>itemKeyToComps\<close> is an empty set,
  or a key that has no entry at all, \<^verbatim>\<open>redraw\<close> only puts the base buffer on the canvas:
  the canvas equals the base buffer and nothing else changes.
\<close>

theorem redraw_no_labels:
  assumes "g_hoverItemKey s = Some k"
    and "g_itemKeyToComps s k = None \<or> g_itemKeyToComps s k = Some []"
  shows "redraw s = s\<lparr>g_canvas := g_greyData s\<rparr> \<and> g_canvas (redraw s) = g_greyData s"
  using assms by (auto simp: redraw_def Let_def)

theorem redraw_no_labels_witness:
  "g_itemKeyToComps exScene ''socks'' = Some [] \<and> g_itemKeyToComps exScene ''rope'' = None \<and>
   g_canvas (redraw (exScene\<lparr>g_hoverItemKey := Some ''socks''\<rparr>)) = exGrey \<and>
   g_canvas (redraw (exScene\<lparr>g_hoverItemKey := Some ''rope''\<rparr>)) = exGrey"
proof -
  have a: "g_itemKeyToComps exScene ''socks'' = Some []" "g_itemKeyToComps exScene ''rope'' = None"
    by (simp_all add: exScene_def)
  have "g_canvas (redraw (exScene\<lparr>g_hoverItemKey := Some ''socks''\<rparr>)) =
      g_greyData (exScene\<lparr>g_hoverItemKey := Some ''socks''\<rparr>)"
    by (rule redraw_no_labels [THEN conjunct2, of _ "''socks''"]) (simp_all add: a)
  moreover have "g_canvas (redraw (exScene\<lparr>g_hoverItemKey := Some ''rope''\<rparr>)) =
      g_greyData (exScene\<lparr>g_hoverItemKey := Some ''rope''\<rparr>)"
    by (rule redraw_no_labels [THEN conjunct2, of _ "''rope''"]) (simp_all add: a)
  ultimately show ?thesis using a by (simp add: exScene_def)
qed

subsection \<open>Rounding to binary64\<close>

lemma pow2_less_iff: "((2::rat) powi a < 2 powi b) = (a < b)"
proof
  assume l: "(2::rat) powi a < 2 powi b"
  show "a < b"
  proof (rule ccontr)
    assume "\<not> a < b"
    then have "b \<le> a" by simp
    then have "(2::rat) powi b \<le> 2 powi a" by (rule power_int_increasing) simp
    with l show False by simp
  qed
next
  assume "a < b"
  then show "(2::rat) powi a < 2 powi b" by (rule power_int_strict_increasing) simp
qed

lemma pow2_le_iff: "((2::rat) powi a \<le> 2 powi b) = (a \<le> b)"
  using pow2_less_iff [of b a] by (simp add: not_less [symmetric])

lemma ilog2_bounds: "0 < n \<Longrightarrow> 2 ^ ilog2 n \<le> n \<and> n < 2 * 2 ^ ilog2 n"
proof (induction n rule: ilog2.induct)
  case (1 n)
  show ?case
  proof (cases "n < 2")
    case True
    with "1.prems" have "n = 1" by simp
    then show ?thesis by (simp add: ilog2.simps)
  next
    case False
    then have "0 < n div 2" by simp
    from "1.IH" [OF False this]
    have IH: "2 ^ ilog2 (n div 2) \<le> n div 2" "n div 2 < 2 * 2 ^ ilog2 (n div 2)" by simp_all
    have e: "ilog2 n = Suc (ilog2 (n div 2))"
      by (subst ilog2.simps) (simp add: False)
    have "2 * (n div 2) \<le> n" "n < 2 * (n div 2) + 2" by arith+
    with IH show ?thesis unfolding e by simp
  qed
qed

lemma expo_bounds:
  assumes "x \<noteq> 0"
  shows "2 powi expo x \<le> \<bar>x\<bar>" and "\<bar>x\<bar> < 2 powi (expo x + 1)"
proof -
  let ?a = "\<bar>x\<bar>"
  have a0: "0 < ?a" using assms by simp
  have "2 powi expo x \<le> ?a \<and> ?a < 2 powi (expo x + 1)"
  proof (cases "1 \<le> ?a")
    case True
    let ?n = "nat \<lfloor>?a\<rfloor>"
    let ?k = "ilog2 ?n"
    have f1: "1 \<le> \<lfloor>?a\<rfloor>" using True by (simp add: le_floor_iff)
    then have n0: "0 < ?n" by simp
    note B = ilog2_bounds [OF n0]
    have e: "expo x = int ?k" using True by (simp add: expo_def Let_def)
    have na: "rat_of_nat ?n = of_int \<lfloor>?a\<rfloor>" using f1 by simp
    have "rat_of_nat (2 ^ ?k) \<le> rat_of_nat ?n" using B by (simp only: of_nat_le_iff)
    also have "\<dots> \<le> ?a" unfolding na by (rule of_int_floor_le)
    finally have lo: "2 ^ ?k \<le> ?a" by simp
    have "?a < of_int \<lfloor>?a\<rfloor> + 1" by linarith
    also have "\<dots> = rat_of_nat (?n + 1)" using na by simp
    also have "\<dots> \<le> rat_of_nat (2 * 2 ^ ?k)" using B by (simp only: of_nat_le_iff) simp
    finally have hi: "?a < 2 * 2 ^ ?k" by simp
    have p1: "(2::rat) powi (int ?k) = 2 ^ ?k" by simp
    have p2: "(2::rat) powi (int ?k + 1) = 2 * 2 ^ ?k"
      using power_int_of_nat [of "2::rat" "Suc ?k"] by (simp add: add.commute)
    show ?thesis unfolding e p1 p2 using lo hi by simp
  next
    case False
    then have a1: "?a < 1" by simp
    let ?c = "\<lceil>1 / ?a\<rceil>"
    let ?m = "nat (?c - 1)"
    let ?k = "ilog2 ?m"
    have "1 < 1 / ?a" using a0 a1 by simp
    then have c2: "2 \<le> ?c" by (simp add: le_ceiling_iff) 
    then have m0: "0 < ?m" by simp
    note B = ilog2_bounds [OF m0]
    have e: "expo x = - int (Suc ?k)" using False by (simp add: expo_def Let_def)
    have "rat_of_nat ?m = rat_of_int (int ?m)" by simp
    also have "int ?m = ?c - 1"
    proof -
      from c2 have "0 \<le> ?c - 1" by linarith
      then show ?thesis by (rule nat_0_le)
    qed
    finally have ma: "rat_of_nat ?m = of_int ?c - 1" by simp
    have "1 / ?a \<le> of_int ?c" by (rule le_of_int_ceiling)
    also have "\<dots> = rat_of_nat (?m + 1)" using ma by simp
    also have "\<dots> \<le> rat_of_nat (2 * 2 ^ ?k)" using B by (simp only: of_nat_le_iff) simp
    finally have up: "1 / ?a \<le> 2 ^ Suc ?k" by simp
    have "rat_of_nat (2 ^ ?k) \<le> rat_of_nat ?m" using B by (simp only: of_nat_le_iff)
    also have "\<dots> < 1 / ?a" unfolding ma using ceiling_correct [of "1 / ?a"] by simp
    finally have dn: "2 ^ ?k < 1 / ?a" by simp
    have p1: "(2::rat) powi (- int (Suc ?k)) = 1 / 2 ^ Suc ?k"
      by (simp only: power_int_minus_divide power_int_of_nat)
    have p2: "(2::rat) powi (- int (Suc ?k) + 1) = 1 / 2 ^ ?k"
    proof -
      have "- int (Suc ?k) + 1 = - int ?k" by simp
      then show ?thesis by (simp only: power_int_minus_divide power_int_of_nat)
    qed
    have lo: "1 / 2 ^ Suc ?k \<le> ?a"
    proof -
      from up a0 have "1 \<le> 2 ^ Suc ?k * ?a" by (simp add: field_simps del: power_Suc)
      then show ?thesis by (simp add: field_simps del: power_Suc)
    qed
    have hi: "?a < 1 / 2 ^ ?k"
    proof -
      from dn a0 have "2 ^ ?k * ?a < 1" by (simp add: field_simps)
      then show ?thesis by (simp add: field_simps)
    qed
    show ?thesis unfolding e p1 p2 using lo hi by simp
  qed
  then show "2 powi expo x \<le> \<bar>x\<bar>" and "\<bar>x\<bar> < 2 powi (expo x + 1)" by simp_all
qed

lemma roundEven_int: "roundEven (of_int k) = k"
  by (simp add: roundEven_def)



lemma fl64_dyadic:
  assumes m: "\<bar>m\<bar> < 2 ^ 53" and j: "- 1074 \<le> j" "j \<le> 970"
  shows "fl64 (of_int m * 2 powi j) = Num (of_int m * 2 powi j)"
proof (cases "m = 0")
  case True
  then show ?thesis by (simp add: fl64_def)
next
  case False
  define x where "x = rat_of_int m * 2 powi j"
  have x0: "x \<noteq> 0" using False by (simp add: x_def)
  note E = expo_bounds [OF x0]
  define e where "e = max (expo x) (- 1022)"
  have ax: "\<bar>x\<bar> = of_int \<bar>m\<bar> * 2 powi j" by (simp add: x_def abs_mult)
  have "rat_of_int \<bar>m\<bar> < rat_of_int (2 ^ 53)" using m by (simp only: of_int_less_iff)
  then have "\<bar>x\<bar> < 2 ^ 53 * 2 powi j" unfolding ax by simp
  also have "\<dots> = 2 powi (53 + j)"
    using power_int_add [of "2::rat" 53 j] by simp
  finally have xb: "\<bar>x\<bar> < 2 powi (53 + j)" .
  with E(1) have "(2::rat) powi expo x < 2 powi (53 + j)" by simp
  then have "expo x < 53 + j" by (simp only: pow2_less_iff)
  with j have d0: "0 \<le> j - (e - 52)" by (simp add: e_def)
  define d where "d = nat (j - (e - 52))"
  have dj: "j = (e - 52) + int d" using d0 by (simp add: d_def)
  define q where "q = (2::rat) powi (e - 52)"
  have q0: "0 < q" by (simp add: q_def)
  have "(2::rat) powi j = 2 powi (e - 52) * 2 powi (int d)"
    unfolding dj by (rule power_int_add) simp
  then have pj: "(2::rat) powi j = q * 2 ^ d" by (simp add: q_def)
  have "x / q = of_int m * 2 ^ d" unfolding x_def pj using q0 by simp
  also have "\<dots> = of_int (m * 2 ^ d)" by simp
  finally have xq: "x / q = of_int (m * 2 ^ d)" .
  have y: "of_int (roundEven (x / q)) * q = x"
    unfolding xq roundEven_int by (simp add: x_def pj)
  have "(2::rat) powi (53 + j) \<le> 2 powi 1024"
    by (rule power_int_increasing) (use j in simp_all)
  with xb have nov: "\<not> 2 powi 1024 \<le> \<bar>x\<bar>" by simp
  have "fl64 x = Num x"
    using x0 nov unfolding fl64_def Let_def e_def [symmetric] q_def [symmetric] y by simp
  then show ?thesis by (simp add: x_def)
qed

lemma fl64_int: "\<bar>n\<bar> < 2 ^ 53 \<Longrightarrow> fl64 (of_int n) = Num (of_int n)"
  using fl64_dyadic [of n 0] by simp

lemma fl64_nat: "n < 2 ^ 53 \<Longrightarrow> fl64 (of_nat n) = Num (of_nat n)"
  using fl64_int [of "int n"] by simp






lemma index_exact:
  assumes "0 \<le> x" "x < int W" "0 \<le> y" "y < int H" "W * H < 2 ^ 53"
  shows "jsAdd (jsMul (Num (of_int y)) (Num (rat_of_nat W))) (Num (of_int x)) =
         Num (of_int (y * int W + x))"
proof -
  have "y * int W + x < int H * int W"
  proof -
    have "y * int W + x < y * int W + int W" using assms(2) by simp
    also have "\<dots> = (y + 1) * int W" by (simp add: algebra_simps)
    also have "\<dots> \<le> int H * int W" using assms(4) by (intro mult_right_mono) simp_all
    finally show ?thesis .
  qed
  also have "\<dots> = int (W * H)" by simp
  also have "\<dots> < int (2 ^ 53)" using assms(5) by (simp only: of_nat_less_iff)
  finally have b: "y * int W + x < 2 ^ 53" by simp
  have yw0: "0 \<le> y * int W" using assms(3) by simp
  have "y * int W \<le> y * int W + x" using assms(1) by simp
  with b have b2: "y * int W < 2 ^ 53" by simp
  have m: "fl64 (of_int y * rat_of_nat W) = Num (of_int y * rat_of_nat W)"
    using fl64_int [of "y * int W"] yw0 b2 by simp
  have s: "fl64 (of_int y * rat_of_nat W + of_int x) = Num (of_int y * rat_of_nat W + of_int x)"
    using fl64_int [of "y * int W + x"] yw0 assms(1) b by simp
  show ?thesis
    by (simp add: jsMul_def jsAdd_def m s)
qed

subsection \<open>Numerals\<close>

lemma floor_rat_numeral: "\<lfloor>(numeral a :: rat) / numeral b\<rfloor> = numeral a div numeral b"
  using floor_divide_of_int_eq [of "numeral a" "numeral b", where ?'a = rat] by simp

lemma floor_rat_one: "\<lfloor>(1 :: rat) / numeral b\<rfloor> = 1 div numeral b"
  using floor_divide_of_int_eq [of 1 "numeral b", where ?'a = rat] by simp

lemma floor_rat_neg_numeral: "\<lfloor>- ((numeral a :: rat) / numeral b)\<rfloor> = (- numeral a) div numeral b"
  using floor_divide_of_int_eq [of "- numeral a" "numeral b", where ?'a = rat] by simp

lemma floor_rat_neg_one: "\<lfloor>- ((1 :: rat) / numeral b)\<rfloor> = (- 1) div numeral b"
  using floor_divide_of_int_eq [of "- 1" "numeral b", where ?'a = rat] by simp

lemma ceiling_rat_numeral: "\<lceil>(numeral a :: rat) / numeral b\<rceil> = - ((- numeral a) div numeral b)"
  by (simp add: ceiling_def floor_rat_neg_numeral)

lemma ilog2_numeral:
  "ilog2 (numeral k) = (if numeral k < (2::nat) then 0 else Suc (ilog2 (numeral k div 2)))"
  by (rule ilog2.simps)

lemma ilog2_small: "ilog2 0 = 0" "ilog2 1 = 0" "ilog2 (Suc 0) = 0"
  by (simp_all add: ilog2.simps)

lemmas fl64_eval = fl64_def expo_def roundEven_def Let_def ilog2_numeral ilog2_small
  floor_rat_numeral floor_rat_one floor_rat_neg_numeral floor_rat_neg_one ceiling_rat_numeral

lemma fl64_one: "fl64 1 = Num 1"
  using fl64_int [of 1] by simp

subsection \<open>Reading a label\<close>

lemma readLabel_nat: "n < length lab \<Longrightarrow> readLabel lab (int n) = lab ! n"
  by (simp add: readLabel_def)

lemma readLabel_pixel:
  assumes "length lab = W * H" and "0 \<le> px" "px < int W" "0 \<le> py" "py < int H"
  shows "readLabel lab (py * int W + px) = lab ! (nat py * W + nat px)"
proof -
  obtain x y where xy: "px = int x" "py = int y"
    using assms(2,4) by (meson nonneg_int_cases)
  with assms have b: "x < W" "y < H" by simp_all
  have i: "py * int W + px = int (y * W + x)" by (simp add: xy)
  have "y * W + x < W * H" using b by (rule pixel_row_col(1))
  then have "readLabel lab (int (y * W + x)) = lab ! (y * W + x)"
    using assms(1) by (intro readLabel_nat) simp
  then show ?thesis
    unfolding i by (simp only: xy nat_int)
qed

lemma readLabelNum_int: "readLabelNum lab (Num (of_int i)) = readLabel lab i"
  by (simp add: readLabelNum_def)

lemma labelAt_pixel:
  assumes "length lab = W * H" and "W * H < 2 ^ 53"
    and "0 \<le> x" "x < int W" "0 \<le> y" "y < int H"
  shows "labelAt lab W (Num (of_int x)) (Num (of_int y)) = lab ! (nat y * W + nat x)"
  unfolding labelAt_def index_exact [OF assms(3-6) assms(2)] readLabelNum_int
  by (rule readLabel_pixel [OF assms(1) assms(3-6)])


subsection \<open>The hit tester\<close>













subsection \<open>C6: the hit tester\<close>




subsection \<open>The item resolver\<close>

lemma setAdd_set: "set (setAdd ids i) = insert i (set ids)"
  by (auto simp: setAdd_def)

lemma addPoint_mono: "set ids \<subseteq> set (addPoint W H lab ids pt)"
  by (cases pt) (auto simp: addPoint_def Let_def setAdd_set)

lemma fold_addPoint_mono: "set ids \<subseteq> set (foldl (addPoint W H lab) ids ps)"
proof (induction ps arbitrary: ids)
  case Nil
  show ?case by simp
next
  case (Cons pt ps)
  have "set ids \<subseteq> set (addPoint W H lab ids pt)" by (rule addPoint_mono)
  also have "\<dots> \<subseteq> set (foldl (addPoint W H lab) (addPoint W H lab ids pt) ps)" by (rule Cons.IH)
  finally show ?case by simp
qed

lemma anchor_in_labels:
  assumes "(nx, ny) \<in> set ps"
    and "L = labelAt lab W (jsFloor (jsMul (Num nx) (Num (rat_of_nat W))))
                 (jsFloor (jsMul (Num ny) (Num (rat_of_nat H))))" and "L \<noteq> 0"
  shows "L \<in> set (foldl (addPoint W H lab) ids ps)"
  using assms(1)
proof (induction ps arbitrary: ids)
  case Nil
  then show ?case by simp
next
  case (Cons pt ps)
  show ?case
  proof (cases "pt = (nx, ny)")
    case True
    have "L \<in> set (addPoint W H lab ids pt)"
      using assms(2,3) by (simp add: True addPoint_def Let_def setAdd_set)
    with fold_addPoint_mono [of "addPoint W H lab ids pt" W H lab ps] show ?thesis by auto
  next
    case False
    with Cons.prems have "(nx, ny) \<in> set ps" by simp
    from Cons.IH [OF this] show ?thesis by simp
  qed
qed

lemma fold_assign: "foldl (\<lambda>c i. c(i \<mapsto> k)) c ids L = (if L \<in> set ids then Some k else c L)"
  by (induction ids arbitrary: c) auto

lemma mapItem_eq:
  "mapItem W H lab (c2k, k2i, k2c) it =
     (foldl (\<lambda>c i. c(i \<mapsto> key it)) c2k (itemLabels W H lab it),
      k2i(key it \<mapsto> (title it, message it)),
      k2c(key it \<mapsto> itemLabels W H lab it))"
  by (simp add: mapItem_def Let_def itemLabels_def)

lemma fold_mapItem:
  assumes "foldl (mapItem W H lab) m ITEMS = (c2k, k2i, k2c)"
  shows "(\<forall>L. (\<exists>it\<in>set ITEMS. L \<in> set (itemLabels W H lab it)) \<longrightarrow>
            (\<exists>it\<in>set ITEMS. c2k L = Some (key it) \<and> L \<in> set (itemLabels W H lab it))) \<and>
         (distinct (map key ITEMS) \<longrightarrow>
            (\<forall>it\<in>set ITEMS. k2c (key it) = Some (itemLabels W H lab it)))"
  using assms
proof (induction ITEMS arbitrary: c2k k2i k2c rule: rev_induct)
  case Nil
  then show ?case by simp
next
  case (snoc x xs)
  obtain c2k0 k2i0 k2c0 where f: "foldl (mapItem W H lab) m xs = (c2k0, k2i0, k2c0)"
    by (cases "foldl (mapItem W H lab) m xs") auto
  note IH = snoc.IH [OF f]
  from snoc.prems have e: "mapItem W H lab (c2k0, k2i0, k2c0) x = (c2k, k2i, k2c)"
    by (simp add: f)
  then have c2k: "c2k = foldl (\<lambda>c i. c(i \<mapsto> key x)) c2k0 (itemLabels W H lab x)"
    and k2c: "k2c = k2c0(key x \<mapsto> itemLabels W H lab x)"
    by (simp_all add: mapItem_eq)
  have cL: "c2k L = (if L \<in> set (itemLabels W H lab x) then Some (key x) else c2k0 L)" for L
    unfolding c2k by (rule fold_assign)
  have A: "\<forall>L. (\<exists>it\<in>set (xs @ [x]). L \<in> set (itemLabels W H lab it)) \<longrightarrow>
            (\<exists>it\<in>set (xs @ [x]). c2k L = Some (key it) \<and> L \<in> set (itemLabels W H lab it))"
  proof (intro allI impI)
    fix L assume a: "\<exists>it\<in>set (xs @ [x]). L \<in> set (itemLabels W H lab it)"
    show "\<exists>it\<in>set (xs @ [x]). c2k L = Some (key it) \<and> L \<in> set (itemLabels W H lab it)"
    proof (cases "L \<in> set (itemLabels W H lab x)")
      case True
      then have "c2k L = Some (key x) \<and> L \<in> set (itemLabels W H lab x)" by (simp add: cL)
      then show ?thesis by auto
    next
      case False
      with a have "\<exists>it\<in>set xs. L \<in> set (itemLabels W H lab it)" by auto
      with IH obtain it where "it \<in> set xs" "c2k0 L = Some (key it)"
        "L \<in> set (itemLabels W H lab it)" by blast
      with False show ?thesis by (auto simp: cL)
    qed
  qed
  have B: "distinct (map key (xs @ [x])) \<longrightarrow>
            (\<forall>it\<in>set (xs @ [x]). k2c (key it) = Some (itemLabels W H lab it))"
  proof (intro impI ballI)
    fix it assume d: "distinct (map key (xs @ [x]))" and i: "it \<in> set (xs @ [x])"
    show "k2c (key it) = Some (itemLabels W H lab it)"
    proof (cases "it = x")
      case True
      then show ?thesis by (simp add: k2c)
    next
      case False
      with i have ix: "it \<in> set xs" by simp
      then have "key it \<in> key ` set xs" by (rule imageI)
      moreover from d have "key x \<notin> key ` set xs" by simp
      ultimately have "key it \<noteq> key x" by metis
      moreover from d IH ix have "k2c0 (key it) = Some (itemLabels W H lab it)" by simp
      ultimately show ?thesis by (simp add: k2c)
    qed
  qed
  from A B show ?case by (rule conjI)
qed

lemma buildItemMappings_fields:
  "g_W (buildItemMappings ITEMS s) = g_W s" "g_H (buildItemMappings ITEMS s) = g_H s"
  "g_greyData (buildItemMappings ITEMS s) = g_greyData s"
  "g_colorData (buildItemMappings ITEMS s) = g_colorData s"
  "g_compIdAt (buildItemMappings ITEMS s) = g_compIdAt s"
  "g_compCount (buildItemMappings ITEMS s) = g_compCount s"
  "g_hoverItemKey (buildItemMappings ITEMS s) = g_hoverItemKey s"
  "g_canvas (buildItemMappings ITEMS s) = g_canvas s"
  by (simp_all add: buildItemMappings_def split: prod.splits)

lemma buildItemMappings_maps:
  assumes "it \<in> set ITEMS" and "L \<in> set (itemLabels (g_W s) (g_H s) (g_compIdAt s) it)"
    and "distinct (map key ITEMS)"
  shows "\<exists>it'\<in>set ITEMS. g_compToItemKey (buildItemMappings ITEMS s) L = Some (key it') \<and>
     L \<in> set (itemLabels (g_W s) (g_H s) (g_compIdAt s) it') \<and>
     g_itemKeyToComps (buildItemMappings ITEMS s) (key it') =
       Some (itemLabels (g_W s) (g_H s) (g_compIdAt s) it')"
proof -
  obtain c2k k2i k2c where f: "foldl (mapItem (g_W s) (g_H s) (g_compIdAt s))
      (Map.empty, Map.empty, Map.empty) ITEMS = (c2k, k2i, k2c)"
    by (cases "foldl (mapItem (g_W s) (g_H s) (g_compIdAt s)) (Map.empty, Map.empty, Map.empty) ITEMS") auto
  note M = fold_mapItem [OF f]
  from M assms(1,2) obtain it' where i: "it' \<in> set ITEMS" "c2k L = Some (key it')"
    "L \<in> set (itemLabels (g_W s) (g_H s) (g_compIdAt s) it')" by blast
  from M assms(3) i(1) have "k2c (key it') = Some (itemLabels (g_W s) (g_H s) (g_compIdAt s) it')"
    by simp
  with i show ?thesis by (auto simp: buildItemMappings_def f)
qed

lemmas resolver_eval = buildItemMappings_def mapItem_def addPoint_def labelAt_def readLabelNum_def
  readLabel_def setAdd_def jsAdd_def jsMul_def jsFloor_def fl64_eval

lemma ex_mappings: "buildItemMappings exItems exScene = exScene"
  by (simp add: exItems_def exScene_def resolver_eval)

lemma ex_hit: "componentAtClientXY exRect (1 / 4) (1 / 2) exScene = 1"
  by (simp add: componentAtClientXY_def gridCoord_def jsSub_def jsDiv_def jsLess_def jsGeq_def
      exRect_def exScene_def labelAt_def readLabelNum_def readLabel_def jsAdd_def jsMul_def
      jsFloor_def fl64_eval)

text \<open>
  Rounding decides which pixel an anchor samples. The literal \<open>0.6\<close> denotes a number
  below \<open>3 / 5\<close>, whose exact product with 5 is below 3; the product of line 161 rounds
  to 3, so that on an image of 5 rows the anchor samples row 3.
\<close>

lemma anchor_product_rounds:
  "fl64 (3 / 5) = Num (5404319552844595 / 9007199254740992)"
  "\<lfloor>(5404319552844595 / 9007199254740992 :: rat) * 5\<rfloor> = 2"
  "jsFloor (jsMul (Num (5404319552844595 / 9007199254740992)) (Num (rat_of_nat 5))) = Num 3"
  by (simp_all add: jsFloor_def jsMul_def fl64_eval)

lemma upt_3: "[0..<3] = [0, 1, 2]"
  by (simp add: upt_conv_Cons eval_nat_numeral)

lemma ex_redraw:
  "g_canvas (redraw (exScene\<lparr>g_hoverItemKey := Some ''skis''\<rparr>)) =
     [200, 10, 10, 255,  255, 255, 255, 255,  10, 10, 200, 255]"
  by (simp add: redraw_def Let_def exScene_def exGrey_def exColor_def recolor_def byteAt_def
      list_update_numeral upt_3)

subsection \<open>C5: anchors outside the image\<close>

text \<open>
  C5. The claim is that an anchor whose pixel coordinates \<open>\<lfloor>nx * W\<rfloor>\<close>, \<open>\<lfloor>ny * H\<rfloor>\<close> fall
  outside \<open>[0, W) \<times> [0, H)\<close> contributes no label, in particular one with \<open>nx = 1\<close>.
  \<^verbatim>\<open>buildItemMappings\<close> checks only the flat index \<open>py * W + px\<close> (through \<^verbatim>\<open>|| 0\<close>), not the
  column as \<^verbatim>\<open>componentAtClientXY\<close> does: on a \<open>2 \<times> 2\<close> image whose only foreground pixel
  is the first pixel of the second row, the anchor \<open>(1, 0)\<close> has \<open>px = 2 = W\<close> and yet
  contributes that pixel's label.
\<close>

theorem anchor_right_edge_wraps:
  "\<lfloor>(1::rat) * rat_of_nat 2\<rfloor> = 2 \<and>
   jsFloor (jsMul (Num 1) (Num (rat_of_nat 2))) = Num 2 \<and>
   g_itemKeyToComps
     (buildItemMappings [\<lparr>key = ''probe'', title = ''Probe'', message = ''m'', pts = [(1, 0)]\<rparr>]
        (initial\<lparr>g_W := 2, g_H := 2, g_compIdAt := [0, 0, 1, 0]\<rparr>)) ''probe'' = Some [1]"
  by (simp add: initial_def resolver_eval)

subsection \<open>C7: from an anchor to the recoloured item\<close>

text \<open>
  C7, as amended. For a catalogue with distinct, non-empty keys, a label array of
  \<open>W * H < 2 ^ 53\<close> entries and an anchor of one of its items whose pixel, as lines 160-161
  compute it in binary64, lies inside the image and carries the label \<open>L \<noteq> 0\<close>: a pointer
  inside that pixel, under the identity display rectangle, resolves through
  \<^verbatim>\<open>componentAtClientXY\<close> and \<^verbatim>\<open>compToItemKey\<close> to a non-empty key whose label set contains
  \<open>L\<close>; and \<^verbatim>\<open>redraw\<close> with that key as active selection gives every pixel whose label is
  in that label set (so every pixel labelled \<open>L\<close>) the RGB of the overlay buffer and alpha
  255, and leaves every pixel whose label is not in the set equal to the base buffer.
  The pointer coordinates are numbers, that is, rounding leaves them unchanged.
\<close>

theorem anchor_round_trip:
  assumes keys: "distinct (map key ITEMS)" and nonempty: "\<forall>it\<in>set ITEMS. key it \<noteq> []"
    and len: "length (g_compIdAt s0) = g_W s0 * g_H s0"
    and lenG: "length (g_greyData s0) = 4 * (g_W s0 * g_H s0)"
    and lenC: "length (g_colorData s0) = 4 * (g_W s0 * g_H s0)"
    and sz: "g_W s0 * g_H s0 < 2 ^ 53"
    and it: "it \<in> set ITEMS" and pt: "(nx, ny) \<in> set (pts it)"
    and px: "jsFloor (jsMul (Num nx) (Num (rat_of_nat (g_W s0)))) = Num (rat_of_int px)"
    and py: "jsFloor (jsMul (Num ny) (Num (rat_of_nat (g_H s0)))) = Num (rat_of_int py)"
    and inside: "0 \<le> px" "px < int (g_W s0)" "0 \<le> py" "py < int (g_H s0)"
    and L: "L = g_compIdAt s0 ! (nat py * g_W s0 + nat px)" and L0: "L \<noteq> 0"
    and num: "fl64 cx = Num cx" "fl64 cy = Num cy"
    and ptr: "\<lfloor>cx\<rfloor> = px" "\<lfloor>cy\<rfloor> = py"
    and rect: "rect = \<lparr>rect_left = 0, rect_top = 0, rect_width = rat_of_nat (g_W s0),
                 rect_height = rat_of_nat (g_H s0)\<rparr>"
    and s: "s = buildItemMappings ITEMS s0"
  shows "\<exists>k comps.
      g_compToItemKey s (componentAtClientXY rect cx cy s) = Some k \<and> k \<noteq> [] \<and>
      g_itemKeyToComps s k = Some comps \<and> L \<in> set comps \<and>
      (\<forall>p<g_W s * g_H s.
         (g_compIdAt s ! p \<in> set comps \<longrightarrow>
            g_canvas (redraw (s\<lparr>g_hoverItemKey := Some k\<rparr>)) ! (4 * p) = g_colorData s ! (4 * p) \<and>
            g_canvas (redraw (s\<lparr>g_hoverItemKey := Some k\<rparr>)) ! (4 * p + 1) = g_colorData s ! (4 * p + 1) \<and>
            g_canvas (redraw (s\<lparr>g_hoverItemKey := Some k\<rparr>)) ! (4 * p + 2) = g_colorData s ! (4 * p + 2) \<and>
            g_canvas (redraw (s\<lparr>g_hoverItemKey := Some k\<rparr>)) ! (4 * p + 3) = 255) \<and>
         (g_compIdAt s ! p \<notin> set comps \<longrightarrow>
            (\<forall>j<4. g_canvas (redraw (s\<lparr>g_hoverItemKey := Some k\<rparr>)) ! (4 * p + j) =
                    g_greyData s ! (4 * p + j))))"
proof -
  let ?W = "g_W s0" and ?H = "g_H s0" and ?lab = "g_compIdAt s0"
  note fields = buildItemMappings_fields [of ITEMS s0, folded s]
  have W0: "0 < ?W" and H0: "0 < ?H" using inside by auto
  have rl: "labelAt ?lab ?W (Num (of_int px)) (Num (of_int py)) = L"
    unfolding L by (rule labelAt_pixel [OF len sz inside])
  have axis: "gridCoord n c 0 (rat_of_nat n) = Num (of_int \<lfloor>c\<rfloor>)"
    if "0 < n" and "fl64 c = Num c" for n c
    using that by (simp add: gridCoord_def jsSub_def jsDiv_def jsMul_def jsFloor_def fl64_one)
  have hit: "componentAtClientXY rect cx cy s = L"
    unfolding componentAtClientXY_def Let_def fields
    using inside rl
    by (simp add: rect axis [OF W0 num(1)] axis [OF H0 num(2)] ptr jsLess_def jsGeq_def)
  have "L \<in> set (itemLabels ?W ?H ?lab it)"
    unfolding itemLabels_def
    by (rule anchor_in_labels [OF pt _ L0]) (simp only: px py rl)
  from buildItemMappings_maps [OF it this keys, folded s]
  obtain it' where i: "it' \<in> set ITEMS" "g_compToItemKey s L = Some (key it')"
    "L \<in> set (itemLabels ?W ?H ?lab it')"
    "g_itemKeyToComps s (key it') = Some (itemLabels ?W ?H ?lab it')" by blast
  let ?k = "key it'" and ?comps = "itemLabels ?W ?H ?lab it'"
  let ?s = "s\<lparr>g_hoverItemKey := Some ?k\<rparr>"
  have k: "?k \<noteq> []" using nonempty i(1) by blast
  have ne: "?comps \<noteq> []" using i(3) by auto
  have pix: "(g_compIdAt s ! p \<in> set ?comps \<longrightarrow>
            g_canvas (redraw ?s) ! (4 * p) = g_colorData s ! (4 * p) \<and>
            g_canvas (redraw ?s) ! (4 * p + 1) = g_colorData s ! (4 * p + 1) \<and>
            g_canvas (redraw ?s) ! (4 * p + 2) = g_colorData s ! (4 * p + 2) \<and>
            g_canvas (redraw ?s) ! (4 * p + 3) = 255) \<and>
         (g_compIdAt s ! p \<notin> set ?comps \<longrightarrow>
            (\<forall>j<4. g_canvas (redraw ?s) ! (4 * p + j) = g_greyData s ! (4 * p + j)))"
    if "p < g_W s * g_H s" for p
    using redraw_pixels [of ?s ?k ?comps p] that i(4) k ne len lenG lenC
    by (simp add: fields)
  show ?thesis
    using i(2) k i(4) i(3) pix unfolding hit by blast
qed

theorem anchor_round_trip_witness:
  "distinct (map key exItems) \<and> length (g_compIdAt exScene) = g_W exScene * g_H exScene \<and>
   g_W exScene * g_H exScene < 2 ^ 53 \<and>
   (1 / 8, 1 / 2) \<in> set (pts (hd exItems)) \<and>
   jsFloor (jsMul (Num (1 / 8)) (Num (rat_of_nat (g_W exScene)))) = Num (rat_of_int 0) \<and>
   jsFloor (jsMul (Num (1 / 2)) (Num (rat_of_nat (g_H exScene)))) = Num (rat_of_int 0) \<and>
   g_compIdAt exScene ! (nat 0 * g_W exScene + nat 0) = 1 \<and>
   fl64 (1 / 4) = Num (1 / 4) \<and> fl64 (1 / 2) = Num (1 / 2) \<and>
   \<lfloor>1 / 4 :: rat\<rfloor> = 0 \<and> \<lfloor>1 / 2 :: rat\<rfloor> = 0 \<and>
   (\<exists>k comps.
      g_compToItemKey exScene (componentAtClientXY exRect (1 / 4) (1 / 2) exScene) = Some k \<and>
      k \<noteq> [] \<and> g_itemKeyToComps exScene k = Some comps \<and> 1 \<in> set comps)"
proof -
  have 1: "distinct (map key exItems)" and 2: "\<forall>it\<in>set exItems. key it \<noteq> []"
    and 6: "hd exItems \<in> set exItems" and 7: "(1 / 8, 1 / 2) \<in> set (pts (hd exItems))"
    by (simp_all add: exItems_def)
  have 3: "length (g_compIdAt exScene) = g_W exScene * g_H exScene"
    and 4: "length (g_greyData exScene) = 4 * (g_W exScene * g_H exScene)"
    and 5: "length (g_colorData exScene) = 4 * (g_W exScene * g_H exScene)"
    and sz: "g_W exScene * g_H exScene < 2 ^ 53"
    by (simp_all add: exScene_def exGrey_def exColor_def)
  have 8: "jsFloor (jsMul (Num (1 / 8)) (Num (rat_of_nat (g_W exScene)))) = Num (rat_of_int 0)"
    and 9: "jsFloor (jsMul (Num (1 / 2)) (Num (rat_of_nat (g_H exScene)))) = Num (rat_of_int 0)"
    by (simp_all add: exScene_def jsFloor_def jsMul_def fl64_eval)
  have 10: "(0::int) \<le> 0" "0 < int (g_W exScene)" "(0::int) \<le> 0" "0 < int (g_H exScene)"
    by (simp_all add: exScene_def)
  have 14: "1 = g_compIdAt exScene ! (nat 0 * g_W exScene + nat 0)" and 15: "(1::nat) \<noteq> 0"
    by (simp_all add: exScene_def)
  have n: "fl64 (1 / 4) = Num (1 / 4)" "fl64 (1 / 2) = Num (1 / 2)"
    by (simp_all add: fl64_eval)
  have 16: "\<lfloor>1 / 4 :: rat\<rfloor> = 0" and 17: "\<lfloor>1 / 2 :: rat\<rfloor> = 0"
    by (simp_all add: floor_rat_one)
  have 18: "exRect = \<lparr>rect_left = 0, rect_top = 0, rect_width = rat_of_nat (g_W exScene),
                 rect_height = rat_of_nat (g_H exScene)\<rparr>"
    by (simp add: exRect_def exScene_def)
  have 19: "exScene = buildItemMappings exItems exScene" by (simp add: ex_mappings)
  from anchor_round_trip [OF 1 2 3 4 5 sz 6 7 8 9 10 14 15 n 16 17 18 19]
  have "\<exists>k comps.
      g_compToItemKey exScene (componentAtClientXY exRect (1 / 4) (1 / 2) exScene) = Some k \<and>
      k \<noteq> [] \<and> g_itemKeyToComps exScene k = Some comps \<and> 1 \<in> set comps"
    by blast
  with 1 3 sz 7 8 9 14 n 16 17 show ?thesis by simp
qed

text \<open>
  C7, as stated, fails: the claim leaves all pixels that do not carry \<open>L\<close> equal to the
  base buffer. In the small scene the first anchor of \<open>skis\<close> resolves to label 1, the
  pointer on that pixel resolves to \<open>skis\<close>, and \<^verbatim>\<open>redraw\<close> also recolours pixel 2, which
  carries label 2, the other part of the item.
\<close>

theorem round_trip_counterexample:
  "(1 / 8, 1 / 2) \<in> set (pts (hd exItems)) \<and>
   g_compIdAt exScene ! 0 = 1 \<and>
   componentAtClientXY exRect (1 / 4) (1 / 2) (buildItemMappings exItems exScene) = 1 \<and>
   g_compToItemKey (buildItemMappings exItems exScene) 1 = Some ''skis'' \<and>
   g_compIdAt exScene ! 2 \<noteq> 1 \<and>
   g_canvas (redraw ((buildItemMappings exItems exScene)\<lparr>g_hoverItemKey := Some ''skis''\<rparr>)) ! 8
     \<noteq> g_greyData exScene ! 8"
  by (simp add: ex_mappings ex_hit ex_redraw) (simp add: exScene_def exItems_def exGrey_def)

subsection \<open>Initialisation\<close>

lemma map_byteAt: "map (byteAt xs) [0..<length xs] = xs"
proof -
  have "map (byteAt xs) [0..<length xs] = map (\<lambda>i. xs ! i) [0..<length xs]"
    by (rule map_cong) (simp_all add: byteAt_def)
  then show ?thesis by (simp add: map_nth)
qed

lemma drawImageToData_ok:
  assumes "0 < W" "0 < H"
  shows "\<exists>d. drawImageToData img W H = Inr d \<and> length d = 4 * W * H"
  using assms by (simp add: drawImageToData_def)

lemma redraw_fields:
  "g_W (redraw s) = g_W s" "g_H (redraw s) = g_H s"
  "g_greyData (redraw s) = g_greyData s" "g_colorData (redraw s) = g_colorData s"
  "g_compIdAt (redraw s) = g_compIdAt s" "g_compCount (redraw s) = g_compCount s"
  by (simp_all add: redraw_def Let_def split: option.splits)

lemma ex_labelScan_grey: "labelScan 3 1 exGrey = Some ([1, 0, 2], 2)"
  by (simp add: eval_defs exGrey_def)

lemma ex_draw:
  "drawImageToData exGreyImg 3 1 = Inr exGrey" "drawImageToData exColorImg 3 1 = Inr exColor"
proof -
  have lg: "length exGrey = 12" and lc: "length exColor = 12"
    by (simp_all add: exGrey_def exColor_def)
  have "map (byteAt exGrey) [0..<12] = exGrey"
    using map_byteAt [of exGrey] by (simp only: lg)
  then show "drawImageToData exGreyImg 3 1 = Inr exGrey"
    by (simp add: drawImageToData_def exGreyImg_def)
  have "map (byteAt exColor) [0..<12] = exColor"
    using map_byteAt [of exColor] by (simp only: lc)
  then show "drawImageToData exColorImg 3 1 = Inr exColor"
    by (simp add: drawImageToData_def exColorImg_def)
qed

lemma ex_init: "init exItems (Decoded exGreyImg) (Decoded exColorImg) = Some (Inr exScene)"
proof -
  have w: "naturalWidth exGreyImg = 3" "naturalHeight exGreyImg = 1"
    by (simp_all add: exGreyImg_def)
  have b: "buildComponentMap exGrey (initial\<lparr>g_W := 3, g_H := 1, g_greyData := exGrey, g_colorData := exColor\<rparr>)
      = Some (initial\<lparr>g_W := 3, g_H := 1, g_greyData := exGrey, g_colorData := exColor,
           g_compIdAt := [1, 0, 2], g_compCount := 2\<rparr>)"
    using ex_labelScan_grey by (simp add: buildComponentMap_def)
  have m: "buildItemMappings exItems (initial\<lparr>g_W := 3, g_H := 1, g_greyData := exGrey,
        g_colorData := exColor, g_compIdAt := [1, 0, 2], g_compCount := 2\<rparr>) = exScene\<lparr>g_canvas := []\<rparr>"
    by (simp add: exItems_def exScene_def initial_def resolver_eval)
  have r: "redraw (exScene\<lparr>g_canvas := []\<rparr>) = exScene"
    by (simp add: redraw_def Let_def exScene_def)
  show ?thesis
    using ex_draw b m r by (simp add: init_def Let_def w)
qed

subsection \<open>C9: images of different sizes\<close>

text \<open>
  C9, as amended. \<^verbatim>\<open>init\<close> never compares the sizes of the two images: it draws both at
  the natural size \<open>W \<times> H\<close> of the base image. For every base image of non-zero size with
  fewer than \<open>2 ^ 31\<close> pixels and every overlay image, whatever its natural size,
  initialisation succeeds, and segmentation and compositing run over two buffers of the
  same size \<open>4 * W * H\<close> and a label array of \<open>W * H\<close> entries.
\<close>

theorem init_resamples_overlay:
  assumes "0 < naturalWidth g" and "0 < naturalHeight g"
    and "naturalWidth g * naturalHeight g < 2 ^ 31"
  shows "\<exists>s. init ITEMS (Decoded g) (Decoded c) = Some (Inr s) \<and>
      g_W s = naturalWidth g \<and> g_H s = naturalHeight g \<and>
      length (g_greyData s) = 4 * naturalWidth g * naturalHeight g \<and>
      length (g_colorData s) = 4 * naturalWidth g * naturalHeight g \<and>
      length (g_compIdAt s) = naturalWidth g * naturalHeight g"
proof -
  let ?W = "naturalWidth g" and ?H = "naturalHeight g"
  from drawImageToData_ok [OF assms(1,2)]
  obtain gd where gd: "drawImageToData g ?W ?H = Inr gd" "length gd = 4 * ?W * ?H" by blast
  from drawImageToData_ok [OF assms(1,2)]
  obtain cd where cd: "drawImageToData c ?W ?H = Inr cd" "length cd = 4 * ?W * ?H" by blast
  let ?s2 = "initial\<lparr>g_W := ?W, g_H := ?H, g_greyData := gd, g_colorData := cd\<rparr>"
  have "g_W ?s2 * g_H ?s2 < 2 ^ 31" using assms(3) by simp
  from buildComponentMap_inv [OF this, of gd]
  obtain lab cnt where b: "buildComponentMap gd ?s2 = Some (?s2\<lparr>g_compIdAt := lab, g_compCount := cnt\<rparr>)"
    and inv: "scanInv (g_W ?s2) (g_H ?s2) gd (g_W ?s2 * g_H ?s2) (lab, cnt)" by blast
  have len: "length lab = ?W * ?H" using scanInvD(1) [OF inv] by simp
  let ?s = "redraw (buildItemMappings ITEMS (?s2\<lparr>g_compIdAt := lab, g_compCount := cnt\<rparr>))"
  have "init ITEMS (Decoded g) (Decoded c) = Some (Inr ?s)"
    by (simp add: init_def Let_def gd cd b)
  moreover have "g_W ?s = ?W" "g_H ?s = ?H" "length (g_greyData ?s) = 4 * ?W * ?H"
    "length (g_colorData ?s) = 4 * ?W * ?H" "length (g_compIdAt ?s) = ?W * ?H"
    by (simp_all add: redraw_fields buildItemMappings_fields gd cd len)
  ultimately show ?thesis by blast
qed

theorem init_resamples_overlay_witness:
  "0 < naturalWidth exGreyImg \<and> 0 < naturalHeight exGreyImg \<and>
   naturalWidth exGreyImg * naturalHeight exGreyImg < 2 ^ 31 \<and>
   naturalWidth exColorImg \<noteq> naturalWidth exGreyImg \<and>
   (\<exists>s. init exItems (Decoded exGreyImg) (Decoded exColorImg) = Some (Inr s) \<and>
      g_W s = 3 \<and> g_H s = 1 \<and> length (g_greyData s) = 12 \<and> length (g_colorData s) = 12 \<and>
      length (g_compIdAt s) = 3)"
proof -
  have h: "0 < naturalWidth exGreyImg" "0 < naturalHeight exGreyImg"
    "naturalWidth exGreyImg * naturalHeight exGreyImg < 2 ^ 31"
    by (simp_all add: exGreyImg_def)
  from init_resamples_overlay [OF h, of exItems exColorImg] h
  show ?thesis by (simp add: exGreyImg_def exColorImg_def)
qed

text \<open>
  C9, as stated, fails: no mismatch is detected and initialisation is not aborted. With a
  \<open>3 \<times> 1\<close> base image and a \<open>6 \<times> 2\<close> overlay image \<^verbatim>\<open>init\<close> returns the small scene,
  segmented and drawn.
\<close>

theorem init_mismatch_counterexample:
  "naturalWidth exColorImg \<noteq> naturalWidth exGreyImg \<and>
   naturalHeight exColorImg \<noteq> naturalHeight exGreyImg \<and>
   init exItems (Decoded exGreyImg) (Decoded exColorImg) = Some (Inr exScene) \<and>
   g_compIdAt exScene = [1, 0, 2] \<and> g_canvas exScene = exGrey"
  by (simp add: ex_init) (simp add: exGreyImg_def exColorImg_def exScene_def)

subsection \<open>C8: the foreground classifier\<close>

text \<open>
  C8. For all channel values (in particular those in 0..255), \<open>isForeground r g b\<close> is
  false when all three channels strictly exceed 245; otherwise it is true exactly when
  the mean \<open>(r + g + b) / 3\<close> is strictly below 245. Consequently a pixel whose mean is
  below 245 is foreground whatever its single channels are, and a pixel whose mean is
  at least 245 and that has a channel at or below 245 is background.
\<close>

theorem isForeground_spec:
  "(245 < r \<and> 245 < g \<and> 245 < b \<longrightarrow> \<not> isForeground r g b) \<and>
   (\<not> (245 < r \<and> 245 < g \<and> 245 < b) \<longrightarrow>
      isForeground r g b = (rat_of_nat (r + g + b) / 3 < 245)) \<and>
   (rat_of_nat (r + g + b) / 3 < 245 \<longrightarrow> isForeground r g b) \<and>
   (245 \<le> rat_of_nat (r + g + b) / 3 \<and> (r \<le> 245 \<or> g \<le> 245 \<or> b \<le> 245) \<longrightarrow>
      \<not> isForeground r g b)"
proof -
  have mean: "(rat_of_nat (r + g + b) / 3 < 245) = (r + g + b < 735)"
  proof -
    have "(rat_of_nat (r + g + b) / 3 < 245) = (rat_of_nat (r + g + b) < rat_of_nat 735)"
      by simp
    also have "\<dots> = (r + g + b < 735)"
      by (simp only: of_nat_less_iff)
    finally show ?thesis .
  qed
  show ?thesis
    unfolding isForeground_def Let_def mean by auto
qed

theorem isForeground_spec_witness:
  "\<not> isForeground 250 250 250 \<and> isForeground 240 240 240 \<and>
   isForeground 200 250 255 \<and> \<not> isForeground 255 255 225"
  using isForeground_spec [of 250 250 250] isForeground_spec [of 240 240 240]
    isForeground_spec [of 200 250 255] isForeground_spec [of 255 255 225]
  by simp

end
